theory Spec2Isabelle
  imports Main "HOL-Library.Sublist"
begin

section \<open>Data model\<close>

text \<open>
  The records follow the object shapes used by \<^verbatim>\<open>getTarget\<close>: a \<^verbatim>\<open>Word\<close> is
  \<^verbatim>\<open>{text, pos: {line, col}}\<close>, a matcher \<^verbatim>\<open>Result\<close> is \<^verbatim>\<open>{item, start, end, score}\<close>
  and a \<^verbatim>\<open>Target\<close> is \<^verbatim>\<open>{text, start, end, pos, score, char}\<close>.  Positions and
  scores are JavaScript numbers that hold integers; they are modelled as \<open>int\<close>.
  Strings are lists of code units; every code unit that the session itself
  produces or compares is below 256, so \<open>char\<close> is used for a code unit.
\<close>

record Pos =
  line :: int
  col :: int

record Word =
  "text" :: string
  pos :: Pos

record Result =
  item :: Word
  start :: int
  "end" :: int
  score :: int

record Target =
  "text" :: string
  start :: int
  "end" :: int
  pos :: Pos
  score :: int
  char :: string

text \<open>
  A value thrown inside the session: a matcher that fails, the
  \<^verbatim>\<open>assert(code, is.Number)\<close> of the key loop, or an awaited call of the editor
  that is rejected.
\<close>

datatype error = MatcherError | AssertionError | Rejected

text \<open>
  The matcher back ends \<^verbatim>\<open>getFzfResults\<close> and \<^verbatim>\<open>getKensakuResults\<close> live in
  modules that are not part of the sources at hand; they are parameters of the
  model.  A matcher either returns its ranked results or throws.  The field
  \<open>matchers\<close> is the value of the option \<^verbatim>\<open>fuzzy_motion_matchers\<close>.
\<close>

record env =
  matchers :: "string list"
  fzf :: "string \<Rightarrow> Word list \<Rightarrow> error + Result list"
  kensaku :: "string \<Rightarrow> Word list \<Rightarrow> error + Result list"

section \<open>The target computation \<^verbatim>\<open>getTarget\<close>\<close>

subsection \<open>Aggregation of the matcher outputs\<close>

text \<open>
  The \<^verbatim>\<open>reduce\<close> callback: \<open>cur\<close> is appended to \<open>acc\<close> unless \<open>acc\<close> already
  holds an entry on the same line whose \<^verbatim>\<open>pos.col + start\<close> is the same.
\<close>

definition dedupStep :: "Result list \<Rightarrow> Result \<Rightarrow> Result list" where
  "dedupStep acc cur =
     (case List.find
             (\<lambda>v. line (Word.pos (item v)) = line (Word.pos (item cur)) \<and>
                  col (Word.pos (item v)) + Result.start v
                    = col (Word.pos (item cur)) + Result.start cur) acc of
        Some duplicateTarget \<Rightarrow> acc
      | None \<Rightarrow> acc @ [cur])"

definition dedup :: "Result list \<Rightarrow> Result list" where
  "dedup rs = foldl dedupStep [] rs"

text \<open>
  The constant \<^verbatim>\<open>results\<close> of \<^verbatim>\<open>getTarget\<close>: the fzf results (when
  \<^verbatim>\<open>matchers.includes("fzf")\<close>) followed by the kensaku results (when
  \<^verbatim>\<open>matchers.includes("kensaku")\<close>), reduced by \<open>dedupStep\<close>.  A matcher that
  throws ends the computation.
\<close>

definition aggregate :: "env \<Rightarrow> string \<Rightarrow> Word list \<Rightarrow> error + Result list" where
  "aggregate e input words =
     (case (if ''fzf'' \<in> set (matchers e) then fzf e input words else Inr []) of
        Inl err \<Rightarrow> Inl err
      | Inr fzfResult \<Rightarrow>
          (case (if ''kensaku'' \<in> set (matchers e) then kensaku e input words else Inr []) of
             Inl err \<Rightarrow> Inl err
           | Inr kensakuResults \<Rightarrow> Inr (dedup (fzfResult @ kensakuResults))))"

subsection \<open>Label assignment\<close>

text \<open>
  The inner \<^verbatim>\<open>while\<close> loop that advances \<^verbatim>\<open>labelIndex\<close> past labels already in
  \<^verbatim>\<open>cachedLabels\<close>.  The source tests \<^verbatim>\<open>cachedLabels.includes(labels[labelIndex])\<close>
  before the bound; past the end \<^verbatim>\<open>labels[labelIndex]\<close> is \<^verbatim>\<open>undefined\<close>, which no
  list of strings includes, so the loop stops there either way.
\<close>

function skipCached :: "string list \<Rightarrow> string list \<Rightarrow> nat \<Rightarrow> nat" where
  "skipCached labels cachedLabels labelIndex =
     (if labelIndex < length labels \<and> labels ! labelIndex \<in> set cachedLabels
      then skipCached labels cachedLabels (Suc labelIndex)
      else labelIndex)"
  by pat_completeness auto
termination
  by (relation "measure (\<lambda>(labels, cachedLabels, labelIndex). length labels - labelIndex)") auto

declare skipCached.simps [simp del]

text \<open>
  The \<^verbatim>\<open>for (const entry of results)\<close> loop, with its three mutable variables
  \<^verbatim>\<open>labelIndex\<close>, \<^verbatim>\<open>labeledTargets\<close> and \<^verbatim>\<open>cachedLabels\<close> as arguments.  The
  parameter \<open>labels\<close> is optional in the source (\<open>None\<close> is \<^verbatim>\<open>undefined\<close>).
\<close>

fun labelLoop ::
  "Target list \<Rightarrow> string list option \<Rightarrow> Result list \<Rightarrow> nat \<Rightarrow> Target list \<Rightarrow> string list
     \<Rightarrow> Target list" where
  "labelLoop targetCache labels [] labelIndex labeledTargets cachedLabels = labeledTargets"
| "labelLoop targetCache labels (entry # rest) labelIndex labeledTargets cachedLabels =
     (case List.find
             (\<lambda>cache. line (Target.pos cache) = line (Word.pos (item entry)) \<and>
                      col (Target.pos cache) = col (Word.pos (item entry)) \<and>
                      Target.start cache = Result.start entry) targetCache of
        Some cachedTarget \<Rightarrow>
          labelLoop targetCache labels rest labelIndex
            (labeledTargets @
               [cachedTarget\<lparr>Target.text := Word.text (item entry),
                              Target.start := Result.start entry,
                              Target.end := Result.end entry,
                              Target.pos := Word.pos (item entry),
                              Target.score := Result.score entry\<rparr>])
            cachedLabels
      | None \<Rightarrow>
          (case labels of
             None \<Rightarrow> labelLoop targetCache labels rest labelIndex labeledTargets cachedLabels
           | Some ls \<Rightarrow>
               if labelIndex < length ls then
                 (let labelIndex' = skipCached ls cachedLabels labelIndex in
                  if labelIndex' \<ge> length ls
                  then labelLoop targetCache labels rest labelIndex' labeledTargets cachedLabels
                  else labelLoop targetCache labels rest labelIndex'
                         (labeledTargets @
                            [\<lparr>Target.text = Word.text (item entry),
                              Target.start = Result.start entry,
                              Target.end = Result.end entry,
                              Target.pos = Word.pos (item entry),
                              Target.score = Result.score entry,
                              Target.char = ls ! labelIndex'\<rparr>])
                         (cachedLabels @ [ls ! labelIndex']))
               else labelLoop targetCache labels rest labelIndex labeledTargets cachedLabels))"

definition labelTargets :: "Target list \<Rightarrow> string list option \<Rightarrow> Result list \<Rightarrow> Target list" where
  "labelTargets targetCache labels results =
     labelLoop targetCache labels results 0 [] (map Target.char targetCache)"

subsection \<open>\<^verbatim>\<open>getTarget\<close>\<close>

text \<open>
  \<^verbatim>\<open>getTarget\<close> reads and writes the module variable \<^verbatim>\<open>targetCache\<close>; the model
  takes the cache and returns the outcome together with the cache after the
  call.  The empty input returns before the cache is touched, and so does a
  matcher that throws.
\<close>

definition getTarget ::
  "env \<Rightarrow> Target list \<Rightarrow> Word list \<Rightarrow> string \<Rightarrow> string list option
     \<Rightarrow> (error + Target list) \<times> Target list" where
  "getTarget e targetCache words input labels =
     (if input = [] then (Inr [], targetCache)
      else
        (case aggregate e input words of
           Inl err \<Rightarrow> (Inl err, targetCache)
         | Inr results \<Rightarrow>
             (let labeledTargets = labelTargets targetCache labels results
              in (Inr labeledTargets, labeledTargets))))"


section \<open>The interactive session\<close>

subsection \<open>The editor, as far as the session drives it\<close>

text \<open>
  The editor is reached through \<^verbatim>\<open>denops.call\<close> and \<^verbatim>\<open>execute\<close>.  Every call the
  session makes is recorded in \<open>calls\<close>, in the order in which it is made
  (\<^verbatim>\<open>console.error\<close> is recorded there too).  Besides the record of calls the
  model keeps what the editor currently shows: the extmarks of the plugin's
  namespace, the text properties of the plugin's type, the popups and the
  matches.  An identifier that the editor hands out (extmark, popup, match) is
  taken from \<open>nextId\<close> and so differs from every identifier handed out before.
\<close>

datatype host = Nvim | Vim

datatype call =
    Execute string
  | NvimBufSetExtmark nat int int string string
  | NvimBufDelExtmark nat nat
  | PropAdd int int nat
  | PropRemove nat
  | PopupCreate string nat string
  | PopupClose nat
  | MatchAddPos string "int list" nat
  | MatchDelete nat
  | Cursor int int
  | ConsoleError error

record editor =
  extmarks :: "nat set"
  props :: "nat set"
  popups :: "nat set"
  matches :: "nat set"
  nextId :: nat
  calls :: "call list"

definition execute :: "string \<Rightarrow> editor \<Rightarrow> editor" where
  "execute cmd ed = ed\<lparr>calls := calls ed @ [Execute cmd]\<rparr>"

definition nvim_buf_set_extmark ::
  "nat \<Rightarrow> int \<Rightarrow> int \<Rightarrow> string \<Rightarrow> string \<Rightarrow> editor \<Rightarrow> nat \<times> editor" where
  "nvim_buf_set_extmark ns row column virt_text hl ed =
     (nextId ed,
      ed\<lparr>extmarks := insert (nextId ed) (extmarks ed), nextId := Suc (nextId ed),
         calls := calls ed @ [NvimBufSetExtmark ns row column virt_text hl]\<rparr>)"

definition nvim_buf_del_extmark :: "nat \<Rightarrow> editor \<Rightarrow> nat \<Rightarrow> editor" where
  "nvim_buf_del_extmark ns ed markId =
     ed\<lparr>extmarks := extmarks ed - {markId}, calls := calls ed @ [NvimBufDelExtmark ns markId]\<rparr>"

definition prop_add :: "int \<Rightarrow> int \<Rightarrow> nat \<Rightarrow> editor \<Rightarrow> editor" where
  "prop_add lnum column propId ed =
     ed\<lparr>props := insert propId (props ed), calls := calls ed @ [PropAdd lnum column propId]\<rparr>"

definition prop_remove :: "editor \<Rightarrow> nat \<Rightarrow> editor" where
  "prop_remove ed markId =
     ed\<lparr>props := props ed - {markId}, calls := calls ed @ [PropRemove markId]\<rparr>"

definition popup_create :: "string \<Rightarrow> nat \<Rightarrow> string \<Rightarrow> editor \<Rightarrow> nat \<times> editor" where
  "popup_create what propId hl ed =
     (nextId ed,
      ed\<lparr>popups := insert (nextId ed) (popups ed), nextId := Suc (nextId ed),
         calls := calls ed @ [PopupCreate what propId hl]\<rparr>)"

definition popup_close :: "editor \<Rightarrow> nat \<Rightarrow> editor" where
  "popup_close ed popupId =
     ed\<lparr>popups := popups ed - {popupId}, calls := calls ed @ [PopupClose popupId]\<rparr>"

definition matchaddpos :: "string \<Rightarrow> int list \<Rightarrow> nat \<Rightarrow> editor \<Rightarrow> nat \<times> editor" where
  "matchaddpos grp position priority ed =
     (nextId ed,
      ed\<lparr>matches := insert (nextId ed) (matches ed), nextId := Suc (nextId ed),
         calls := calls ed @ [MatchAddPos grp position priority]\<rparr>)"

definition matchdelete :: "editor \<Rightarrow> nat \<Rightarrow> editor" where
  "matchdelete ed matchId =
     ed\<lparr>matches := matches ed - {matchId}, calls := calls ed @ [MatchDelete matchId]\<rparr>"

definition cursor :: "int \<Rightarrow> int \<Rightarrow> editor \<Rightarrow> editor" where
  "cursor lnum column ed = ed\<lparr>calls := calls ed @ [Cursor lnum column]\<rparr>"

definition console_error :: "error \<Rightarrow> editor \<Rightarrow> editor" where
  "console_error err ed = ed\<lparr>calls := calls ed @ [ConsoleError err]\<rparr>"

subsection \<open>Session state and configuration\<close>

text \<open>
  The module variables \<^verbatim>\<open>markIds\<close>, \<^verbatim>\<open>popupIds\<close>, \<^verbatim>\<open>targetMatchIds\<close>,
  \<^verbatim>\<open>targetCache\<close> and \<^verbatim>\<open>textPropId\<close>, the local variable \<^verbatim>\<open>input\<close> of the
  \<^verbatim>\<open>execute\<close> dispatcher, and the editor.
\<close>

record state =
  markIds :: "nat list"
  popupIds :: "nat list"
  targetMatchIds :: "nat list"
  targetCache :: "Target list"
  textPropId :: nat
  input :: string
  editor :: editor

text \<open>
  What the dispatcher reads once per session: the host, the namespace, the
  options \<^verbatim>\<open>fuzzy_motion_labels\<close>, \<^verbatim>\<open>fuzzy_motion_auto_jump\<close> and
  \<^verbatim>\<open>fuzzy_motion_disable_match_highlight\<close>, the matchers, the result of
  \<^verbatim>\<open>getWords\<close> and the window's first and last line.  \<open>colOffset\<close> and
  \<open>widthBaseText\<close> stand for the answers of the buffer queries
  (\<^verbatim>\<open>charidx\<close>, \<^verbatim>\<open>byteidx\<close>, \<^verbatim>\<open>strdisplaywidth\<close>) that \<^verbatim>\<open>mountTargets\<close> makes
  for a target on Neovim.
\<close>

record config =
  host :: host
  namespace :: nat
  labels :: "string list"
  autoJump :: bool
  disableMatchHighlight :: bool
  matcherEnv :: env
  words :: "Word list"
  startLine :: int
  endLine :: int
  colOffset :: "Target \<Rightarrow> int"
  widthBaseText :: "Target \<Rightarrow> nat"

definition ENTER :: nat where "ENTER = 13"
definition ESC :: nat where "ESC = 27"
definition BS :: nat where "BS = 128"
definition C_H :: nat where "C_H = 8"
definition C_W :: nat where "C_W = 23"
definition SPACE :: nat where "SPACE = 32"
definition TILDE :: nat where "TILDE = 126"

subsection \<open>Rendering\<close>

definition unmountTargets :: "config \<Rightarrow> state \<Rightarrow> state" where
  "unmountTargets cfg st =
     (let st1 =
        (case host cfg of
           Nvim \<Rightarrow> st\<lparr>editor := foldl (nvim_buf_del_extmark (namespace cfg)) (editor st) (markIds st)\<rparr>
         | Vim \<Rightarrow>
             st\<lparr>editor := foldl popup_close (foldl prop_remove (editor st) (markIds st)) (popupIds st),
                popupIds := []\<rparr>)
      in st1\<lparr>editor := foldl matchdelete (editor st1) (targetMatchIds st1),
             markIds := [], targetMatchIds := []\<rparr>)"

definition padStart :: "nat \<Rightarrow> string \<Rightarrow> string" where
  "padStart n s = replicate (n - length s) CHR '' '' @ s"

text \<open>One iteration of the loop of \<^verbatim>\<open>mountTargets\<close>, for the target at \<open>index\<close>.\<close>

definition mountTarget :: "config \<Rightarrow> nat \<Rightarrow> Target \<Rightarrow> state \<Rightarrow> state" where
  "mountTarget cfg index target st =
     (let hl = (if index = 0 then ''FuzzyMotionChar'' else ''FuzzyMotionSubChar'');
          st1 =
            (case host cfg of
               Nvim \<Rightarrow>
                 (let col_match = col (Target.pos target) + Target.start target - 1;
                      (markId, ed) =
                        nvim_buf_set_extmark (namespace cfg) (line (Target.pos target) - 1)
                          (col_match - colOffset cfg target)
                          (padStart (widthBaseText cfg target) (Target.char target)) hl (editor st)
                  in st\<lparr>markIds := markIds st @ [markId], editor := ed\<rparr>)
             | Vim \<Rightarrow>
                 (let propId = textPropId st + 1;
                      ed1 = prop_add (line (Target.pos target))
                              (col (Target.pos target) + Target.start target) propId (editor st);
                      (popupId, ed2) = popup_create (Target.char target) propId hl ed1
                  in st\<lparr>textPropId := propId, markIds := markIds st @ [propId],
                        popupIds := popupIds st @ [popupId], editor := ed2\<rparr>))
      in if \<not> disableMatchHighlight cfg then
           (let (matchId, ed) =
                  matchaddpos ''FuzzyMotionMatch''
                    [line (Target.pos target), col (Target.pos target) + Target.start target,
                     Target.end target - Target.start target] 20 (editor st1)
            in st1\<lparr>targetMatchIds := targetMatchIds st1 @ [matchId], editor := ed\<rparr>)
         else st1)"

fun mountLoop :: "config \<Rightarrow> nat \<Rightarrow> Target list \<Rightarrow> state \<Rightarrow> state" where
  "mountLoop cfg index [] st = st"
| "mountLoop cfg index (target # rest) st = mountLoop cfg (Suc index) rest (mountTarget cfg index target st)"

definition mountTargets :: "config \<Rightarrow> Target list \<Rightarrow> state \<Rightarrow> state" where
  "mountTargets cfg targets st = mountLoop cfg 0 targets st"

definition jumpTarget :: "Target \<Rightarrow> editor \<Rightarrow> editor" where
  "jumpTarget target ed =
     cursor (line (Target.pos target)) (col (Target.pos target) + Target.start target)
       (execute ''normal! m`'' ed)"


subsection \<open>The key loop of the \<^verbatim>\<open>execute\<close> dispatcher\<close>

text \<open>
  What \<^verbatim>\<open>fuzzy_motion#_getchar\<close> hands back: a number, or some other value, on
  which \<^verbatim>\<open>assert(code, is.Number)\<close> throws.
\<close>

datatype event = Code nat | NotNumber

text \<open>How one pass through the body of \<^verbatim>\<open>while (true)\<close> leaves the loop, if it does.\<close>

datatype exit = Broke | Returned | Threw error

text \<open>\<^verbatim>\<open>s.charCodeAt(0)\<close>; \<open>None\<close> is \<^verbatim>\<open>NaN\<close>, the result for the empty string.\<close>

definition charCodeAt0 :: "string \<Rightarrow> nat option" where
  "charCodeAt0 s = (case s of [] \<Rightarrow> None | c # cs \<Rightarrow> Some (of_char c))"

text \<open>
  \<^verbatim>\<open>String.fromCharCode(code)\<close> and \<^verbatim>\<open>nr2char(code)\<close>.  Both are only reached with a
  code below 256: the first with the first code unit of a label, the second
  with a code from 32 to 126.
\<close>

definition fromCharCode :: "nat \<Rightarrow> string" where
  "fromCharCode code = [char_of code]"

definition nr2char :: "nat \<Rightarrow> string" where
  "nr2char code = [char_of code]"

definition echoPrompt :: "string \<Rightarrow> string" where
  "echoPrompt inp = ''echo '' @ [CHR 0x27] @ ''fuzzy-motion: '' @ inp @ [CHR 0x27]"

definition echoEmpty :: string where
  "echoEmpty = ''echo '' @ [CHR 0x27, CHR 0x27]"

text \<open>
  The first half of the loop body, up to the read of the key: prompt, unmount,
  \<^verbatim>\<open>getTarget\<close>, mount, redraw.  A matcher that throws leaves at the call of
  \<^verbatim>\<open>getTarget\<close>.
\<close>

definition render :: "config \<Rightarrow> state \<Rightarrow> (error + Target list) \<times> state" where
  "render cfg st =
     (let st1 = st\<lparr>editor := execute (echoPrompt (input st)) (editor st)\<rparr>;
          st2 = unmountTargets cfg st1
      in case getTarget (matcherEnv cfg) (targetCache st2) (words cfg) (input st2) (Some (labels cfg)) of
           (Inl err, cache) \<Rightarrow> (Inl err, st2\<lparr>targetCache := cache\<rparr>)
         | (Inr targets, cache) \<Rightarrow>
             (let st3 = mountTargets cfg targets (st2\<lparr>targetCache := cache\<rparr>)
              in (Inr targets, st3\<lparr>editor := execute ''redraw'' (editor st3)\<rparr>)))"

text \<open>
  The second half of the loop body: the dispatch on the key that was read, with
  \<open>targets\<close> the list computed in the first half.  \<open>None\<close> means that the loop
  goes on.  After Enter the code is the first code unit of the first target's
  label; when that label is empty the code is \<^verbatim>\<open>NaN\<close>, which no comparison of
  the chain accepts.
\<close>

definition dispatch :: "config \<Rightarrow> Target list \<Rightarrow> event \<Rightarrow> state \<Rightarrow> exit option \<times> state" where
  "dispatch cfg targets ev st =
     (case ev of
        NotNumber \<Rightarrow> (Some (Threw AssertionError), st)
      | Code key \<Rightarrow>
          if key = ENTER \<and> length targets = 0 then (Some Returned, st)
          else
            (case (if key = ENTER then charCodeAt0 (Target.char (targets ! 0)) else Some key) of
               None \<Rightarrow> (None, st)
             | Some code \<Rightarrow>
                 if code = ESC then (Some Broke, st)
                 else if List.find (\<lambda>label. charCodeAt0 label = Some code) (labels cfg) \<noteq> None then
                   (let targetChar = fromCharCode code
                    in case List.find (\<lambda>target. Target.char target = targetChar) targets of
                         Some target \<Rightarrow> (Some Broke, st\<lparr>editor := jumpTarget target (editor st)\<rparr>)
                       | None \<Rightarrow> (None, st))
                 else if code = BS \<or> code = C_H then
                   (None, st\<lparr>targetCache := [], input := butlast (input st)\<rparr>)
                 else if code = C_W then
                   (None, st\<lparr>targetCache := [], input := []\<rparr>)
                 else if SPACE \<le> code \<and> code \<le> TILDE then
                   (let codeStr = nr2char code;
                        input' = input st @ codeStr
                    in case getTarget (matcherEnv cfg) (targetCache st) (words cfg) input'
                              (Some (labels cfg)) of
                         (Inl err, cache) \<Rightarrow>
                           (Some (Threw err), st\<lparr>input := input', targetCache := cache\<rparr>)
                       | (Inr targets', cache) \<Rightarrow>
                           if autoJump cfg \<and> length targets' = 1
                           then (Some Broke,
                                 st\<lparr>input := input', targetCache := cache,
                                    editor := jumpTarget (targets' ! 0) (editor st)\<rparr>)
                           else (None, st\<lparr>input := input', targetCache := cache\<rparr>))
                 else (None, st)))"

text \<open>
  The loop, run on the keys that arrive.  When the keys are used up the loop has
  rendered and waits in \<^verbatim>\<open>fuzzy_motion#_getchar\<close>: the result is \<open>None\<close>.
\<close>

fun loop :: "config \<Rightarrow> event list \<Rightarrow> state \<Rightarrow> exit option \<times> state" where
  "loop cfg [] st =
     (case render cfg st of
        (Inl err, st1) \<Rightarrow> (Some (Threw err), st1)
      | (Inr targets, st1) \<Rightarrow> (None, st1))"
| "loop cfg (ev # evs) st =
     (case render cfg st of
        (Inl err, st1) \<Rightarrow> (Some (Threw err), st1)
      | (Inr targets, st1) \<Rightarrow>
          (case dispatch cfg targets ev st1 of
             (None, st2) \<Rightarrow> loop cfg evs st2
           | (Some ex, st2) \<Rightarrow> (Some ex, st2)))"

text \<open>The lines that the dispatcher shades: \<^verbatim>\<open>endLine + startLine + 1\<close> of them, from \<^verbatim>\<open>startLine\<close>.\<close>

definition lineNumbers :: "config \<Rightarrow> int list" where
  "lineNumbers cfg = map (\<lambda>i. int i + startLine cfg) [0..<nat (endLine cfg + startLine cfg + 1)]"

fun shade :: "int list \<Rightarrow> editor \<Rightarrow> nat list \<times> editor" where
  "shade [] ed = ([], ed)"
| "shade (lineNumber # rest) ed =
     (let (matchId, ed1) = matchaddpos ''FuzzyMotionShade'' [lineNumber] 10 ed;
          (matchIds, ed2) = shade rest ed1
      in (matchId # matchIds, ed2))"

text \<open>The \<^verbatim>\<open>finally\<close> block.\<close>

definition cleanup :: "config \<Rightarrow> nat list \<Rightarrow> state \<Rightarrow> state" where
  "cleanup cfg matchIds st =
     (let st1 = st\<lparr>editor := foldl matchdelete (editor st) matchIds\<rparr>;
          st2 = unmountTargets cfg st1;
          st3 = st2\<lparr>editor := execute echoEmpty (editor st2)\<rparr>
      in st3\<lparr>editor := execute (case host cfg of Nvim \<Rightarrow> ''redraw'' | Vim \<Rightarrow> ''redraw!'') (editor st3)\<rparr>)"

subsection \<open>The session with rejected requests and the jump that is not awaited\<close>

text \<open>
  \<open>render\<close>, \<open>dispatch\<close> and \<open>loop\<close> describe the passes in which the editor
  answers every request, and they run \<^verbatim>\<open>jumpTarget\<close> to its end.  The dispatcher
  is described once more, now with what can go wrong between the \<^verbatim>\<open>try\<close> and
  the \<^verbatim>\<open>finally\<close>:

    \<^item> every \<^verbatim>\<open>await\<close> of a call of the editor inside the \<^verbatim>\<open>try\<close> block can be
      rejected, and the \<^verbatim>\<open>await\<close> then throws.  The awaits of a session are
      counted, and \<open>rejects w n\<close> tells whether the one with number \<open>n\<close> is
      rejected.  A rejected request is recorded in \<open>calls\<close> and changes nothing
      of what the editor shows.  Reading an option with \<^verbatim>\<open>globals.get\<close>, the
      buffer queries of \<^verbatim>\<open>mountTargets\<close>, \<^verbatim>\<open>fuzzy_motion#_getchar\<close> and \<^verbatim>\<open>nr2char\<close>
      are awaits as well; they are counted, though not recorded in \<open>calls\<close>.

    \<^item> \<^verbatim>\<open>jumpTarget\<close> is called without \<^verbatim>\<open>await\<close>.  Its first request is sent at
      the call; its second request, \<^verbatim>\<open>cursor\<close>, is sent when the first one has
      been answered, and by then the \<^verbatim>\<open>finally\<close> block is running.  \<open>pending\<close>
      holds the request that is still to be sent, and \<open>landing w\<close> tells after
      how many requests of the \<^verbatim>\<open>finally\<close> block it is sent (\<open>None\<close>: the first
      request of \<^verbatim>\<open>jumpTarget\<close> is rejected and \<^verbatim>\<open>cursor\<close> is never sent).

  The requests that the program sends without awaiting them (\<^verbatim>\<open>matchdelete\<close>, and
  those of \<^verbatim>\<open>jumpTarget\<close>) cannot throw into the loop; like the requests made
  before the \<^verbatim>\<open>try\<close> and in the \<^verbatim>\<open>finally\<close> block they are taken to be answered.
\<close>

record world =
  rejects :: "nat \<Rightarrow> bool"
  landing :: "nat option"

record run = state +
  awaited :: nat
  pending :: "call list"

definition startRun :: "state \<Rightarrow> run" where
  "startRun st =
     \<lparr>markIds = markIds st, popupIds = popupIds st, targetMatchIds = targetMatchIds st,
      targetCache = targetCache st, textPropId = textPropId st, input = input st,
      editor = editor st, awaited = 0, pending = []\<rparr>"

definition stateOf :: "run \<Rightarrow> state" where
  "stateOf r =
     \<lparr>markIds = markIds r, popupIds = popupIds r, targetMatchIds = targetMatchIds r,
      targetCache = targetCache r, textPropId = textPropId r, input = input r,
      editor = editor r\<rparr>"

text \<open>An \<^verbatim>\<open>await\<close> of a call of the editor: whether it resolves, and the count.\<close>

definition await :: "world \<Rightarrow> run \<Rightarrow> bool \<times> run" where
  "await w r = (\<not> rejects w (awaited r), r\<lparr>awaited := Suc (awaited r)\<rparr>)"

text \<open>\<open>n\<close> awaits in a row; the first that is rejected throws.\<close>

fun awaits :: "world \<Rightarrow> nat \<Rightarrow> run \<Rightarrow> bool \<times> run" where
  "awaits w 0 r = (True, r)"
| "awaits w (Suc n) r = (case await w r of (ok, r1) \<Rightarrow> if ok then awaits w n r1 else (False, r1))"

text \<open>
  An awaited request \<open>c\<close>, with \<open>answered\<close> the editor after the request has been
  carried out.
\<close>

definition sent :: "call \<Rightarrow> editor \<Rightarrow> editor" where
  "sent c ed = ed\<lparr>calls := calls ed @ [c]\<rparr>"

definition request :: "world \<Rightarrow> call \<Rightarrow> editor \<Rightarrow> run \<Rightarrow> bool \<times> run" where
  "request w c answered r =
     (case await w r of
        (ok, r1) \<Rightarrow> (ok, r1\<lparr>editor := (if ok then answered else sent c (editor r))\<rparr>))"

text \<open>
  \<^verbatim>\<open>await Promise.all(ids.map(async (id) => await denops.call(...)))\<close>: every request is
  sent, and the \<^verbatim>\<open>await\<close> throws when one of them is rejected.
\<close>

fun requestAll ::
  "world \<Rightarrow> (nat \<Rightarrow> call) \<Rightarrow> (editor \<Rightarrow> nat \<Rightarrow> editor) \<Rightarrow> nat list \<Rightarrow> run \<Rightarrow> bool \<times> run" where
  "requestAll w c answer [] r = (True, r)"
| "requestAll w c answer (i # ids) r =
     (case request w (c i) (answer (editor r) i) r of
        (ok, r1) \<Rightarrow> (case requestAll w c answer ids r1 of (oks, r2) \<Rightarrow> (ok \<and> oks, r2)))"

definition unmountTargetsR :: "world \<Rightarrow> config \<Rightarrow> run \<Rightarrow> bool \<times> run" where
  "unmountTargetsR w cfg r =
     (case (case host cfg of
              Nvim \<Rightarrow>
                requestAll w (NvimBufDelExtmark (namespace cfg)) (nvim_buf_del_extmark (namespace cfg))
                  (markIds r) r
            | Vim \<Rightarrow>
                (case requestAll w PropRemove prop_remove (markIds r) r of
                   (ok1, r1) \<Rightarrow>
                     if \<not> ok1 then (False, r1)
                     else (case requestAll w PopupClose popup_close (popupIds r1) r1 of
                             (ok2, r2) \<Rightarrow>
                               if \<not> ok2 then (False, r2) else (True, r2\<lparr>popupIds := []\<rparr>)))) of
        (ok, r3) \<Rightarrow>
          if \<not> ok then (False, r3)
          else (True, r3\<lparr>editor := foldl matchdelete (editor r3) (targetMatchIds r3),
                          markIds := [], targetMatchIds := []\<rparr>))"

text \<open>
  One iteration of the loop of \<^verbatim>\<open>mountTargets\<close>, in two parts.  First the label:
  on Neovim the buffer is asked three times, and a fourth time (\<^verbatim>\<open>byteidx\<close>) when
  the match does not start the line, which is when the offset is not 0, and
  then the extmark is set; on Vim the text property is counted and listed
  before it is added, and the popup is listed once it has been created.
\<close>

definition mountLabelR :: "world \<Rightarrow> config \<Rightarrow> string \<Rightarrow> Target \<Rightarrow> run \<Rightarrow> bool \<times> run" where
  "mountLabelR w cfg hl target r =
     (case host cfg of
        Nvim \<Rightarrow>
          (case awaits w (if colOffset cfg target = 0 then 3 else 4) r of
             (ok1, r1) \<Rightarrow>
               if \<not> ok1 then (False, r1)
               else
                 (let col_match = col (Target.pos target) + Target.start target - 1;
                      virt_text = padStart (widthBaseText cfg target) (Target.char target);
                      (markId, ed) =
                        nvim_buf_set_extmark (namespace cfg) (line (Target.pos target) - 1)
                          (col_match - colOffset cfg target) virt_text hl (editor r1)
                  in case request w
                            (NvimBufSetExtmark (namespace cfg) (line (Target.pos target) - 1)
                               (col_match - colOffset cfg target) virt_text hl) ed r1 of
                       (ok2, r2) \<Rightarrow>
                         if \<not> ok2 then (False, r2)
                         else (True, r2\<lparr>markIds := markIds r2 @ [markId]\<rparr>)))
      | Vim \<Rightarrow>
          (let propId = textPropId r + 1;
               r1 = r\<lparr>textPropId := propId, markIds := markIds r @ [propId]\<rparr>
           in case request w
                     (PropAdd (line (Target.pos target))
                        (col (Target.pos target) + Target.start target) propId)
                     (prop_add (line (Target.pos target))
                        (col (Target.pos target) + Target.start target) propId (editor r1))
                     r1 of
                (ok1, r2) \<Rightarrow>
                  if \<not> ok1 then (False, r2)
                  else
                    (let (popupId, ed) = popup_create (Target.char target) propId hl (editor r2)
                     in case request w (PopupCreate (Target.char target) propId hl) ed r2 of
                          (ok2, r3) \<Rightarrow>
                            if \<not> ok2 then (False, r3)
                            else (True, r3\<lparr>popupIds := popupIds r3 @ [popupId]\<rparr>))))"

text \<open>Then, unless the option disables it, the highlight of the match.\<close>

definition mountMatchR :: "world \<Rightarrow> Target \<Rightarrow> run \<Rightarrow> bool \<times> run" where
  "mountMatchR w target r =
     (let position = [line (Target.pos target), col (Target.pos target) + Target.start target,
                      Target.end target - Target.start target];
          (matchId, ed) = matchaddpos ''FuzzyMotionMatch'' position 20 (editor r)
      in case request w (MatchAddPos ''FuzzyMotionMatch'' position 20) ed r of
           (ok, r1) \<Rightarrow>
             if \<not> ok then (False, r1)
             else (True, r1\<lparr>targetMatchIds := targetMatchIds r1 @ [matchId]\<rparr>))"

definition mountTargetR :: "world \<Rightarrow> config \<Rightarrow> nat \<Rightarrow> Target \<Rightarrow> run \<Rightarrow> bool \<times> run" where
  "mountTargetR w cfg index target r =
     (case mountLabelR w cfg (if index = 0 then ''FuzzyMotionChar'' else ''FuzzyMotionSubChar'')
             target r of
        (ok, r1) \<Rightarrow>
          if \<not> ok then (False, r1)
          else if \<not> disableMatchHighlight cfg then mountMatchR w target r1
          else (True, r1))"

fun mountLoopR :: "world \<Rightarrow> config \<Rightarrow> nat \<Rightarrow> Target list \<Rightarrow> run \<Rightarrow> bool \<times> run" where
  "mountLoopR w cfg index [] r = (True, r)"
| "mountLoopR w cfg index (target # rest) r =
     (case mountTargetR w cfg index target r of
        (ok, r1) \<Rightarrow> if ok then mountLoopR w cfg (Suc index) rest r1 else (False, r1))"

text \<open>\<^verbatim>\<open>mountTargets\<close> first reads the option \<^verbatim>\<open>fuzzy_motion_disable_match_highlight\<close>.\<close>

definition mountTargetsR :: "world \<Rightarrow> config \<Rightarrow> Target list \<Rightarrow> run \<Rightarrow> bool \<times> run" where
  "mountTargetsR w cfg targets r =
     (case await w r of (ok, r1) \<Rightarrow> if ok then mountLoopR w cfg 0 targets r1 else (False, r1))"

text \<open>
  \<^verbatim>\<open>getTarget\<close> with input \<open>inp\<close>: unless the input is empty it first reads the
  option \<^verbatim>\<open>fuzzy_motion_matchers\<close>.
\<close>

definition getTargetR :: "world \<Rightarrow> config \<Rightarrow> string \<Rightarrow> run \<Rightarrow> (error + Target list) \<times> run" where
  "getTargetR w cfg inp r =
     (if inp = [] then (Inr [], r)
      else case await w r of
             (ok, r1) \<Rightarrow>
               if \<not> ok then (Inl Rejected, r1)
               else (case getTarget (matcherEnv cfg) (targetCache r1) (words cfg) inp
                            (Some (labels cfg)) of
                       (res, cache) \<Rightarrow> (res, r1\<lparr>targetCache := cache\<rparr>)))"

definition renderR :: "world \<Rightarrow> config \<Rightarrow> run \<Rightarrow> (error + Target list) \<times> run" where
  "renderR w cfg r =
     (case request w (Execute (echoPrompt (input r))) (execute (echoPrompt (input r)) (editor r)) r of
        (ok1, r1) \<Rightarrow>
          if \<not> ok1 then (Inl Rejected, r1)
          else (case unmountTargetsR w cfg r1 of
                  (ok2, r2) \<Rightarrow>
                    if \<not> ok2 then (Inl Rejected, r2)
                    else (case getTargetR w cfg (input r2) r2 of
                            (Inl err, r3) \<Rightarrow> (Inl err, r3)
                          | (Inr targets, r3) \<Rightarrow>
                              (case mountTargetsR w cfg targets r3 of
                                 (ok4, r4) \<Rightarrow>
                                   if \<not> ok4 then (Inl Rejected, r4)
                                   else (case request w (Execute ''redraw'')
                                                (execute ''redraw'' (editor r4)) r4 of
                                           (ok5, r5) \<Rightarrow>
                                             if \<not> ok5 then (Inl Rejected, r5)
                                             else (Inr targets, r5))))))"

text \<open>
  \<^verbatim>\<open>jumpTarget(denops, target)\<close> without \<^verbatim>\<open>await\<close>: the first request is sent, the
  second is left pending.
\<close>

definition jumpTargetR :: "Target \<Rightarrow> run \<Rightarrow> run" where
  "jumpTargetR target r =
     r\<lparr>editor := execute ''normal! m`'' (editor r),
       pending := pending r @
         [Cursor (line (Target.pos target)) (col (Target.pos target) + Target.start target)]\<rparr>"

text \<open>The second half of the loop body, from the read of the key.\<close>

definition dispatchR :: "world \<Rightarrow> config \<Rightarrow> Target list \<Rightarrow> event \<Rightarrow> run \<Rightarrow> exit option \<times> run" where
  "dispatchR w cfg targets ev r0 =
     (case await w r0 of
        (ok, r) \<Rightarrow>
          if \<not> ok then (Some (Threw Rejected), r)
          else
            (case ev of
               NotNumber \<Rightarrow> (Some (Threw AssertionError), r)
             | Code key \<Rightarrow>
                 if key = ENTER \<and> length targets = 0 then (Some Returned, r)
                 else
                   (case (if key = ENTER then charCodeAt0 (Target.char (targets ! 0)) else Some key) of
                      None \<Rightarrow> (None, r)
                    | Some code \<Rightarrow>
                        if code = ESC then (Some Broke, r)
                        else if List.find (\<lambda>label. charCodeAt0 label = Some code) (labels cfg) \<noteq> None then
                          (let targetChar = fromCharCode code
                           in case List.find (\<lambda>target. Target.char target = targetChar) targets of
                                Some target \<Rightarrow> (Some Broke, jumpTargetR target r)
                              | None \<Rightarrow> (None, r))
                        else if code = BS \<or> code = C_H then
                          (None, r\<lparr>targetCache := [], input := butlast (input r)\<rparr>)
                        else if code = C_W then
                          (None, r\<lparr>targetCache := [], input := []\<rparr>)
                        else if SPACE \<le> code \<and> code \<le> TILDE then
                          (case await w r of
                             (ok1, r1) \<Rightarrow>
                               if \<not> ok1 then (Some (Threw Rejected), r1)
                               else
                                 (let codeStr = nr2char code;
                                      r2 = r1\<lparr>input := input r1 @ codeStr\<rparr>
                                  in case getTargetR w cfg (input r2) r2 of
                                       (Inl err, r3) \<Rightarrow> (Some (Threw err), r3)
                                     | (Inr targets', r3) \<Rightarrow>
                                         if autoJump cfg \<and> length targets' = 1
                                         then (Some Broke, jumpTargetR (targets' ! 0) r3)
                                         else (None, r3)))
                        else (None, r))))"

fun loopR :: "world \<Rightarrow> config \<Rightarrow> event list \<Rightarrow> run \<Rightarrow> exit option \<times> run" where
  "loopR w cfg [] r =
     (case renderR w cfg r of
        (Inl err, r1) \<Rightarrow> (Some (Threw err), r1)
      | (Inr targets, r1) \<Rightarrow> (None, r1))"
| "loopR w cfg (ev # evs) r =
     (case renderR w cfg r of
        (Inl err, r1) \<Rightarrow> (Some (Threw err), r1)
      | (Inr targets, r1) \<Rightarrow>
          (case dispatchR w cfg targets ev r1 of
             (None, r2) \<Rightarrow> loopR w cfg evs r2
           | (Some ex, r2) \<Rightarrow> (Some ex, r2)))"

text \<open>
  The requests \<open>cs\<close> of the \<^verbatim>\<open>finally\<close> block, with the pending requests \<open>late\<close>
  sent after the first \<open>n\<close> of them.
\<close>

definition land :: "nat option \<Rightarrow> call list \<Rightarrow> call list \<Rightarrow> call list" where
  "land k late cs = (case k of None \<Rightarrow> cs | Some n \<Rightarrow> take n cs @ late @ drop n cs)"

text \<open>
  The \<^verbatim>\<open>execute\<close> dispatcher.  With \<open>None\<close> the session is still waiting for a key
  and neither \<^verbatim>\<open>catch\<close> nor \<^verbatim>\<open>finally\<close> has run; otherwise the loop was left, a
  thrown value was logged by \<^verbatim>\<open>catch\<close>, and \<^verbatim>\<open>finally\<close> has run, with the pending
  request of a jump sent in between its requests.
\<close>

definition dispatcherExecute :: "world \<Rightarrow> config \<Rightarrow> event list \<Rightarrow> state \<Rightarrow> exit option \<times> state" where
  "dispatcherExecute w cfg evs st =
     (let st0 = st\<lparr>targetCache := []\<rparr>;
          (matchIds, ed) = shade (lineNumbers cfg) (editor st0);
          r1 = startRun (st0\<lparr>editor := ed, input := []\<rparr>)
      in case loopR w cfg evs r1 of
           (None, r2) \<Rightarrow> (None, stateOf r2)
         | (Some ex, r2) \<Rightarrow>
             (let st3 = (case ex of
                           Threw err \<Rightarrow> (stateOf r2)\<lparr>editor := console_error err (editor r2)\<rparr>
                         | Broke \<Rightarrow> stateOf r2
                         | Returned \<Rightarrow> stateOf r2);
                  st4 = cleanup cfg matchIds st3;
                  finallyCalls = drop (length (calls (editor st3))) (calls (editor st4))
              in (Some ex,
                  st4\<lparr>editor := (editor st4)\<lparr>calls := calls (editor st3) @
                                   land (landing w) (pending r2) finallyCalls\<rparr>\<rparr>)))"

text \<open>The requests that \<^verbatim>\<open>jumpTarget\<close> can leave pending.\<close>

definition isCursor :: "call \<Rightarrow> bool" where
  "isCursor c = (case c of Cursor lnum column \<Rightarrow> True | _ \<Rightarrow> False)"


section \<open>Vocabulary of the properties\<close>

text \<open>
  The effective match position \<^verbatim>\<open>(pos.line, pos.col + start)\<close> compared by the
  aggregation, and the identity triple \<^verbatim>\<open>(pos.line, pos.col, start)\<close> compared
  by the cache lookup, of a matcher result and of a target.
\<close>

definition effPosR :: "Result \<Rightarrow> int \<times> int" where
  "effPosR r = (line (Word.pos (item r)), col (Word.pos (item r)) + Result.start r)"

definition effPosT :: "Target \<Rightarrow> int \<times> int" where
  "effPosT t = (line (Target.pos t), col (Target.pos t) + Target.start t)"

definition tripleR :: "Result \<Rightarrow> int \<times> int \<times> int" where
  "tripleR r = (line (Word.pos (item r)), col (Word.pos (item r)), Result.start r)"

definition tripleT :: "Target \<Rightarrow> int \<times> int \<times> int" where
  "tripleT t = (line (Target.pos t), col (Target.pos t), Target.start t)"

text \<open>The target that \<^verbatim>\<open>getTarget\<close> builds from a result entry and a label.\<close>

definition toTarget :: "Result \<Rightarrow> string \<Rightarrow> Target" where
  "toTarget entry c =
     \<lparr>Target.text = Word.text (item entry), Target.start = Result.start entry,
      Target.end = Result.end entry, Target.pos = Word.pos (item entry),
      Target.score = Result.score entry, Target.char = c\<rparr>"

text \<open>The result entry a target was built from: the target without its label.\<close>

definition entryOf :: "Target \<Rightarrow> Result" where
  "entryOf t =
     \<lparr>item = \<lparr>Word.text = Target.text t, Word.pos = Target.pos t\<rparr>,
      Result.start = Target.start t, Result.end = Target.end t, Result.score = Target.score t\<rparr>"

text \<open>
  First occurrence wins: the entries of \<open>xs\<close>, in the order of \<open>xs\<close>, whose
  effective match position does not occur at a smaller index of \<open>xs\<close>.
\<close>

definition firstWins :: "Result list \<Rightarrow> Result list" where
  "firstWins xs =
     map (nth xs) (filter (\<lambda>i. \<forall>j<i. effPosR (xs ! j) \<noteq> effPosR (xs ! i)) [0..<length xs])"

text \<open>
  Aggregation as the specification words it: the enabled matchers are run in
  the order in which the configuration lists them (``order of inclusion fixes
  aggregation priority''), their outputs are concatenated in that order, and
  the concatenation is reduced first-occurrence-wins.
\<close>

definition matcherNamed :: "env \<Rightarrow> string \<Rightarrow> string \<Rightarrow> Word list \<Rightarrow> error + Result list" where
  "matcherNamed e name =
     (if name = ''fzf'' then fzf e else if name = ''kensaku'' then kensaku e else (\<lambda>inp ws. Inr []))"

fun spec_concat :: "env \<Rightarrow> string list \<Rightarrow> string \<Rightarrow> Word list \<Rightarrow> error + Result list" where
  "spec_concat e [] inp ws = Inr []"
| "spec_concat e (name # names) inp ws =
     (case matcherNamed e name inp ws of
        Inl err \<Rightarrow> Inl err
      | Inr rs \<Rightarrow> (case spec_concat e names inp ws of Inl err \<Rightarrow> Inl err | Inr rest \<Rightarrow> Inr (rs @ rest)))"

definition spec_aggregate :: "env \<Rightarrow> string \<Rightarrow> Word list \<Rightarrow> error + Result list" where
  "spec_aggregate e inp ws =
     (case spec_concat e (matchers e) inp ws of Inl err \<Rightarrow> Inl err | Inr rs \<Rightarrow> Inr (firstWins rs))"

text \<open>
  The cache after a sequence of calls of \<^verbatim>\<open>getTarget\<close>, each with its own word
  list and input, under one configuration of matchers and labels.
\<close>

fun runCalls :: "env \<Rightarrow> string list option \<Rightarrow> Target list \<Rightarrow> (Word list \<times> string) list \<Rightarrow> Target list" where
  "runCalls e ls cache [] = cache"
| "runCalls e ls cache ((ws, inp) # rest) = runCalls e ls (snd (getTarget e cache ws inp ls)) rest"

text \<open>
  A module state with nothing mounted, as after loading or after a finished
  session, and an editor whose identifiers in use lie below the next one it
  hands out (for text properties: not above the plugin's counter).
\<close>

definition idle :: "state \<Rightarrow> bool" where
  "idle st \<longleftrightarrow> markIds st = [] \<and> popupIds st = [] \<and> targetMatchIds st = []"

definition wellFormed :: "state \<Rightarrow> bool" where
  "wellFormed st \<longleftrightarrow>
     (\<forall>i \<in> extmarks (editor st) \<union> popups (editor st) \<union> matches (editor st). i < nextId (editor st)) \<and>
     (\<forall>i \<in> props (editor st). i \<le> textPropId st)"

text \<open>
  The invariant of the label cache under a fixed alphabet: pairwise distinct
  labels, pairwise distinct effective match positions, every label taken from
  the alphabet.
\<close>

definition cacheOk :: "string list option \<Rightarrow> Target list \<Rightarrow> bool" where
  "cacheOk lbls tc \<longleftrightarrow>
     distinct (map Target.char tc) \<and> distinct (map effPosT tc) \<and>
     Target.char ` set tc \<subseteq> (case lbls of None \<Rightarrow> {} | Some ls \<Rightarrow> set ls)"

text \<open>
  The invariant of the session that ties the editor to the module state:
  relative to the editor \<open>ed0\<close> at the start of the session and the shading
  matches \<open>shadeIds\<close>, the editor still shows what it showed at the start, and
  whatever else it shows is a shading match or is listed in the module
  variables; what the module variables list is newer than what was there at
  the start.  (After a rejected request the module variables may list more
  than the editor shows.)
\<close>

definition covered :: "config \<Rightarrow> editor \<Rightarrow> nat list \<Rightarrow> 'a state_scheme \<Rightarrow> bool" where
  "covered cfg ed0 shadeIds st \<longleftrightarrow>
     extmarks ed0 \<subseteq> extmarks (editor st) \<and>
     extmarks (editor st) \<subseteq> extmarks ed0 \<union> (if host cfg = Nvim then set (markIds st) else {}) \<and>
     props ed0 \<subseteq> props (editor st) \<and>
     props (editor st) \<subseteq> props ed0 \<union> (if host cfg = Nvim then {} else set (markIds st)) \<and>
     popups ed0 \<subseteq> popups (editor st) \<and>
     popups (editor st) \<subseteq> popups ed0 \<union> set (popupIds st) \<and>
     matches ed0 \<subseteq> matches (editor st) \<and>
     matches (editor st) \<subseteq> matches ed0 \<union> set shadeIds \<union> set (targetMatchIds st) \<and>
     (\<forall>i \<in> extmarks ed0 \<union> popups ed0 \<union> matches ed0. i < nextId (editor st)) \<and>
     (\<forall>i \<in> props ed0. i \<le> textPropId st) \<and>
     set (markIds st) \<inter> (if host cfg = Nvim then extmarks ed0 else props ed0) = {} \<and>
     set (popupIds st) \<inter> popups ed0 = {} \<and>
     (set (targetMatchIds st) \<union> set shadeIds) \<inter> matches ed0 = {} \<and>
     (host cfg = Nvim \<longrightarrow> popupIds st = [])"

section \<open>Example configurations\<close>

text \<open>
  Two simple matchers to run the definitions on: \<open>offsetMatcher k\<close> returns, in
  word order, the words whose text continues with the input after \<open>k\<close>
  characters, with \<^verbatim>\<open>start = k\<close>; \<open>failingMatcher\<close> always throws.
\<close>

definition offsetMatcher :: "nat \<Rightarrow> string \<Rightarrow> Word list \<Rightarrow> error + Result list" where
  "offsetMatcher k inp ws =
     Inr (map (\<lambda>w. \<lparr>item = w, Result.start = int k, Result.end = int k + int (length inp),
                     Result.score = 0\<rparr>)
            (filter (\<lambda>w. prefix inp (drop k (Word.text w))) ws))"

definition failingMatcher :: "string \<Rightarrow> Word list \<Rightarrow> error + Result list" where
  "failingMatcher inp ws = Inl MatcherError"

definition mkWord :: "string \<Rightarrow> int \<Rightarrow> int \<Rightarrow> Word" where
  "mkWord t l c = \<lparr>Word.text = t, Word.pos = \<lparr>line = l, col = c\<rparr>\<rparr>"

definition fzfOnly :: env where
  "fzfOnly = \<lparr>matchers = [''fzf''], fzf = offsetMatcher 0, kensaku = failingMatcher\<rparr>"

definition kensakuFirst :: env where
  "kensakuFirst = \<lparr>matchers = [''kensaku'', ''fzf''], fzf = offsetMatcher 0, kensaku = offsetMatcher 1\<rparr>"

definition fWords :: "Word list" where
  "fWords = [mkWord ''far'' 1 1, mkWord ''foo'' 2 1, mkWord ''fob'' 3 1, mkWord ''fox'' 4 1]"

definition overlapWords :: "Word list" where
  "overlapWords = [mkWord ''xfoo'' 1 1, mkWord ''foo'' 1 2, mkWord ''afa'' 2 1]"

text \<open>
  \<open>matched t l c s n\<close> is the result for the word \<open>t\<close> at line \<open>l\<close>, column \<open>c\<close>,
  matched on \<open>n\<close> characters from offset \<open>s\<close>; \<open>labelled t l c s n ch\<close> is the
  target for it with label \<open>ch\<close>.
\<close>

definition matched :: "string \<Rightarrow> int \<Rightarrow> int \<Rightarrow> int \<Rightarrow> int \<Rightarrow> Result" where
  "matched t l c s n =
     \<lparr>item = mkWord t l c, Result.start = s, Result.end = s + n, Result.score = 0\<rparr>"

definition labelled :: "string \<Rightarrow> int \<Rightarrow> int \<Rightarrow> int \<Rightarrow> int \<Rightarrow> string \<Rightarrow> Target" where
  "labelled t l c s n ch =
     \<lparr>Target.text = t, Target.start = s, Target.end = s + n, Target.pos = \<lparr>line = l, col = c\<rparr>,
      Target.score = 0, Target.char = ch\<rparr>"

text \<open>
  A session configuration over these words with the labels a, s, d, and a module
  state with an editor that shows nothing.
\<close>

definition exampleConfig :: "host \<Rightarrow> bool \<Rightarrow> config" where
  "exampleConfig h aj =
     \<lparr>host = h, namespace = 1, labels = [''a'', ''s'', ''d''], autoJump = aj,
      disableMatchHighlight = False, matcherEnv = fzfOnly, words = fWords,
      startLine = 1, endLine = 4, colOffset = (\<lambda>t. 0), widthBaseText = (\<lambda>t. 1)\<rparr>"

definition freshState :: state where
  "freshState =
     \<lparr>markIds = [], popupIds = [], targetMatchIds = [], targetCache = [], textPropId = 0,
      input = [],
      editor = \<lparr>extmarks = {}, props = {}, popups = {}, matches = {}, nextId = 1, calls = []\<rparr>\<rparr>"

section \<open>Properties of the target computation\<close>

subsection \<open>Records and keys\<close>

lemma entryOf_toTarget [simp]: "entryOf (toTarget entry c) = entry"
  by (simp add: entryOf_def toTarget_def)

lemma char_toTarget [simp]: "Target.char (toTarget entry c) = c"
  by (simp add: toTarget_def)

lemma carry_toTarget:
  "c\<lparr>Target.text := Word.text (item entry), Target.start := Result.start entry,
      Target.end := Result.end entry, Target.pos := Word.pos (item entry),
      Target.score := Result.score entry\<rparr> = toTarget entry (Target.char c)"
  by (cases c) (simp add: toTarget_def)

lemma effPosT_toTarget [simp]: "effPosT (toTarget entry c) = effPosR entry"
  by (simp add: effPosT_def effPosR_def toTarget_def)


lemma effPosR_entryOf [simp]: "effPosR (entryOf t) = effPosT t"
  by (simp add: effPosT_def effPosR_def entryOf_def)

lemma tripleR_entryOf [simp]: "tripleR (entryOf t) = tripleT t"
  by (simp add: tripleT_def tripleR_def entryOf_def)

lemma triple_effPos: "tripleR a = tripleR b \<Longrightarrow> effPosR a = effPosR b"
  by (simp add: tripleR_def effPosR_def)

subsection \<open>The reduction of the concatenated matcher outputs\<close>

lemma dedupStep_alt:
  "dedupStep acc cur = (if effPosR cur \<in> effPosR ` set acc then acc else acc @ [cur])"
proof -
  have "(List.find (\<lambda>v. line (Word.pos (item v)) = line (Word.pos (item cur)) \<and>
                  col (Word.pos (item v)) + Result.start v
                    = col (Word.pos (item cur)) + Result.start cur) acc = None)
        \<longleftrightarrow> effPosR cur \<notin> effPosR ` set acc"
  proof
    assume n: "List.find (\<lambda>v. line (Word.pos (item v)) = line (Word.pos (item cur)) \<and>
                  col (Word.pos (item v)) + Result.start v
                    = col (Word.pos (item cur)) + Result.start cur) acc = None"
    show "effPosR cur \<notin> effPosR ` set acc"
    proof
      assume "effPosR cur \<in> effPosR ` set acc"
      then obtain v where v: "v \<in> set acc" "effPosR v = effPosR cur" by (metis image_iff)
      from n v(1) have "\<not> (line (Word.pos (item v)) = line (Word.pos (item cur)) \<and>
                  col (Word.pos (item v)) + Result.start v
                    = col (Word.pos (item cur)) + Result.start cur)"
        unfolding find_None_iff by blast
      with v(2) show False by (simp add: effPosR_def)
    qed
  next
    assume "effPosR cur \<notin> effPosR ` set acc"
    then have "\<forall>v\<in>set acc. effPosR v \<noteq> effPosR cur" by (metis image_iff)
    then show "List.find (\<lambda>v. line (Word.pos (item v)) = line (Word.pos (item cur)) \<and>
                  col (Word.pos (item v)) + Result.start v
                    = col (Word.pos (item cur)) + Result.start cur) acc = None"
      by (simp add: find_None_iff effPosR_def)
  qed
  then show ?thesis
    unfolding dedupStep_def by (cases "effPosR cur \<in> effPosR ` set acc") (auto split: option.splits)
qed

lemma dedup_snoc: "dedup (xs @ [x]) = dedupStep (dedup xs) x"
  by (simp add: dedup_def)

lemma dedup_keys: "effPosR ` set (dedup xs) = effPosR ` set xs"
  by (induction xs rule: rev_induct) (auto simp: dedup_snoc dedupStep_alt dedup_def)

lemma dedup_distinct: "distinct (map effPosR (dedup xs))"
  by (induction xs rule: rev_induct) (auto simp: dedup_snoc dedupStep_alt dedup_def)

lemma dedup_subseq: "subseq (dedup xs) xs"
proof (induction xs rule: rev_induct)
  case Nil
  show ?case by (simp add: dedup_def)
next
  case (snoc x xs)
  show ?case
  proof (cases "effPosR x \<in> effPosR ` set (dedup xs)")
    case True
    then have "dedup (xs @ [x]) = dedup xs" by (simp add: dedup_snoc dedupStep_alt)
    with snoc show ?thesis by (simp add: subseq_rev_drop_many)
  next
    case False
    then have "dedup (xs @ [x]) = dedup xs @ [x]" by (simp add: dedup_snoc dedupStep_alt)
    with snoc show ?thesis by (simp add: list_emb_append_mono)
  qed
qed

lemma firstWins_snoc:
  "firstWins (xs @ [x]) =
     (if effPosR x \<in> effPosR ` set xs then firstWins xs else firstWins xs @ [x])"
proof -
  have a: "filter (\<lambda>i. \<forall>j<i. effPosR ((xs @ [x]) ! j) \<noteq> effPosR ((xs @ [x]) ! i)) [0..<length xs]
         = filter (\<lambda>i. \<forall>j<i. effPosR (xs ! j) \<noteq> effPosR (xs ! i)) [0..<length xs]"
    by (rule filter_cong) (auto simp: nth_append)
  have b: "map (nth (xs @ [x])) (filter (\<lambda>i. \<forall>j<i. effPosR (xs ! j) \<noteq> effPosR (xs ! i)) [0..<length xs])
         = map (nth xs) (filter (\<lambda>i. \<forall>j<i. effPosR (xs ! j) \<noteq> effPosR (xs ! i)) [0..<length xs])"
    by (rule map_cong) (auto simp: nth_append)
  have c: "(\<forall>j<length xs. effPosR ((xs @ [x]) ! j) \<noteq> effPosR ((xs @ [x]) ! length xs))
         \<longleftrightarrow> effPosR x \<notin> effPosR ` set xs"
  proof -
    have "(\<forall>j<length xs. effPosR (xs ! j) \<noteq> effPosR x) \<longleftrightarrow> (\<forall>y\<in>set xs. effPosR y \<noteq> effPosR x)"
      by (simp add: all_set_conv_all_nth)
    also have "\<dots> \<longleftrightarrow> effPosR x \<notin> effPosR ` set xs" by (metis image_iff)
    finally show ?thesis by (simp add: nth_append)
  qed
  show ?thesis
    unfolding firstWins_def using a b c by simp
qed

lemma dedup_firstWins: "dedup xs = firstWins xs"
proof (induction xs rule: rev_induct)
  case Nil
  show ?case by (simp add: dedup_def firstWins_def)
next
  case (snoc x xs)
  have "effPosR ` set (firstWins xs) = effPosR ` set xs"
    using dedup_keys [of xs] snoc by simp
  with snoc show ?case
    by (simp add: dedup_snoc dedupStep_alt firstWins_snoc)
qed

subsection \<open>The label skip loop\<close>

lemma skipCached_step:
  "labelIndex < length ls \<Longrightarrow> ls ! labelIndex \<in> set used \<Longrightarrow>
     skipCached ls used labelIndex = skipCached ls used (Suc labelIndex)"
  using skipCached.simps [of ls used labelIndex] by simp

lemma skipCached_stop:
  "\<not> (labelIndex < length ls \<and> ls ! labelIndex \<in> set used) \<Longrightarrow>
     skipCached ls used labelIndex = labelIndex"
  using skipCached.simps [of ls used labelIndex] by auto

lemma skipCached_ge: "labelIndex \<le> skipCached ls used labelIndex"
proof (induction ls used labelIndex rule: skipCached.induct)
  case (1 ls used i)
  show ?case
  proof (cases "i < length ls \<and> ls ! i \<in> set used")
    case True
    with 1 have "Suc i \<le> skipCached ls used (Suc i)" by simp
    with True show ?thesis by (simp add: skipCached_step)
  next
    case False
    then show ?thesis by (simp add: skipCached_stop)
  qed
qed

lemma skipCached_fresh:
  "skipCached ls used labelIndex < length ls \<Longrightarrow> ls ! skipCached ls used labelIndex \<notin> set used"
proof (induction ls used labelIndex rule: skipCached.induct)
  case (1 ls used i)
  show ?case
  proof (cases "i < length ls \<and> ls ! i \<in> set used")
    case True
    then have eq: "skipCached ls used i = skipCached ls used (Suc i)"
      by (simp add: skipCached_step)
    with 1 True show ?thesis by simp
  next
    case False
    then have eq: "skipCached ls used i = i"
      by (simp add: skipCached_stop)
    with 1(2) False show ?thesis by simp
  qed
qed


subsection \<open>The labelling loop\<close>

lemma find_triple:
  "List.find (\<lambda>cache. line (Target.pos cache) = line (Word.pos (item entry)) \<and>
                      col (Target.pos cache) = col (Word.pos (item entry)) \<and>
                      Target.start cache = Result.start entry) tc
   = List.find (\<lambda>c. tripleT c = tripleR entry) tc"
  by (simp add: tripleT_def tripleR_def)

lemma labelLoop_Cons:
  "labelLoop tc lbls (entry # rest) labelIndex acc used =
     (case List.find (\<lambda>c. tripleT c = tripleR entry) tc of
        Some cachedTarget \<Rightarrow>
          labelLoop tc lbls rest labelIndex
            (acc @ [toTarget entry (Target.char cachedTarget)]) used
      | None \<Rightarrow>
          (case lbls of
             None \<Rightarrow> labelLoop tc lbls rest labelIndex acc used
           | Some ls \<Rightarrow>
               if labelIndex < length ls \<and> skipCached ls used labelIndex < length ls
               then labelLoop tc lbls rest (skipCached ls used labelIndex)
                      (acc @ [toTarget entry (ls ! skipCached ls used labelIndex)])
                      (used @ [ls ! skipCached ls used labelIndex])
               else labelLoop tc lbls rest
                      (if labelIndex < length ls then skipCached ls used labelIndex else labelIndex)
                      acc used))"
  unfolding labelLoop.simps find_triple carry_toTarget
  by (simp add: Let_def toTarget_def split: option.splits)

declare labelLoop.simps(2) [simp del]

lemma labelLoop_subseq:
  "\<exists>ts. labelLoop tc lbls rs labelIndex acc used = acc @ ts \<and>
        subseq (map entryOf ts) rs"
proof (induction rs arbitrary: labelIndex acc used)
  case Nil
  show ?case by simp
next
  case (Cons entry rest)
  have push: "\<exists>ts. labelLoop tc lbls rest i (acc @ [toTarget entry c]) u = acc @ ts \<and>
        subseq (map entryOf ts) (entry # rest)" for i c u
  proof -
    from Cons [of i "acc @ [toTarget entry c]" u] obtain ts where
      ts: "labelLoop tc lbls rest i (acc @ [toTarget entry c]) u = (acc @ [toTarget entry c]) @ ts"
        "subseq (map entryOf ts) rest" by blast
    then have "labelLoop tc lbls rest i (acc @ [toTarget entry c]) u = acc @ (toTarget entry c # ts)"
      "subseq (map entryOf (toTarget entry c # ts)) (entry # rest)" by simp_all
    then show ?thesis by blast
  qed
  have skip: "\<exists>ts. labelLoop tc lbls rest i acc u = acc @ ts \<and>
        subseq (map entryOf ts) (entry # rest)" for i u
  proof -
    from Cons [of i acc u] obtain ts where
      "labelLoop tc lbls rest i acc u = acc @ ts" "subseq (map entryOf ts) rest" by blast
    then have "labelLoop tc lbls rest i acc u = acc @ ts"
      "subseq (map entryOf ts) (entry # rest)"
      using subseq_drop_many [of "map entryOf ts" rest "[entry]"] by simp_all
    then show ?thesis by blast
  qed
  show ?case
    unfolding labelLoop_Cons using push skip
    by (cases lbls; cases "List.find (\<lambda>c. tripleT c = tripleR entry) tc") simp_all
qed

lemma labelLoop_origin:
  "t \<in> set (labelLoop tc lbls rs labelIndex acc used) \<Longrightarrow>
     t \<in> set acc \<or>
     (\<exists>entry\<in>set rs. t = toTarget entry (Target.char t) \<and>
        (case List.find (\<lambda>c. tripleT c = tripleR entry) tc of
           Some c \<Rightarrow> Target.char t = Target.char c
         | None \<Rightarrow> \<exists>ls. lbls = Some ls \<and> Target.char t \<in> set ls))"
proof (induction rs arbitrary: labelIndex acc used)
  case Nil
  then show ?case by simp
next
  case (Cons entry rest)
  show ?case
  proof (cases "List.find (\<lambda>c. tripleT c = tripleR entry) tc")
    case (Some c)
    with Cons.prems have
      "t \<in> set (labelLoop tc lbls rest labelIndex (acc @ [toTarget entry (Target.char c)]) used)"
      by (simp add: labelLoop_Cons)
    from Cons.IH [OF this] Some show ?thesis by auto
  next
    case None
    show ?thesis
    proof (cases lbls)
      case n: None
      with None Cons.prems have "t \<in> set (labelLoop tc lbls rest labelIndex acc used)"
        by (simp add: labelLoop_Cons)
      from Cons.IH [OF this] show ?thesis by auto
    next
      case (Some ls)
      show ?thesis
      proof (cases "labelIndex < length ls \<and> skipCached ls used labelIndex < length ls")
        case True
        with None Some Cons.prems have
          "t \<in> set (labelLoop tc lbls rest (skipCached ls used labelIndex)
                      (acc @ [toTarget entry (ls ! skipCached ls used labelIndex)])
                      (used @ [ls ! skipCached ls used labelIndex]))"
          by (simp add: labelLoop_Cons)
        from Cons.IH [OF this] None Some True show ?thesis by auto
      next
        case False
        with None Some Cons.prems have
          "t \<in> set (labelLoop tc lbls rest
                      (if labelIndex < length ls then skipCached ls used labelIndex else labelIndex)
                      acc used)"
          by (simp add: labelLoop_Cons)
        from Cons.IH [OF this] show ?thesis by auto
      qed
    qed
  qed
qed


lemma labelLoop_distinct_chars:
  assumes dc: "distinct (map Target.char tc)"
  shows "distinct (map tripleR rs) \<Longrightarrow> distinct (map Target.char acc) \<Longrightarrow>
         Target.char ` set tc \<subseteq> set used \<Longrightarrow> Target.char ` set acc \<subseteq> set used \<Longrightarrow>
         (\<forall>entry\<in>set rs. \<forall>c. List.find (\<lambda>c. tripleT c = tripleR entry) tc = Some c
             \<longrightarrow> Target.char c \<notin> Target.char ` set acc) \<Longrightarrow>
         distinct (map Target.char (labelLoop tc lbls rs labelIndex acc used))"
proof (induction rs arbitrary: labelIndex acc used)
  case Nil
  then show ?case by simp
next
  case (Cons entry rest)
  have dr: "distinct (map tripleR rest)" and nr: "tripleR entry \<notin> tripleR ` set rest"
    using Cons.prems(1) by simp_all
  have fut: "\<forall>e\<in>set rest. \<forall>c. List.find (\<lambda>c. tripleT c = tripleR e) tc = Some c
             \<longrightarrow> Target.char c \<notin> Target.char ` set acc"
    using Cons.prems(5) by simp
  show ?case
  proof (cases "List.find (\<lambda>c. tripleT c = tripleR entry) tc")
    case (Some c)
    have cin: "c \<in> set tc" and ct: "tripleT c = tripleR entry"
      using Some by (auto simp: find_Some_iff)
    have fresh: "Target.char c \<notin> Target.char ` set acc"
      using Cons.prems(5) Some by simp
    have "distinct (map Target.char (labelLoop tc lbls rest labelIndex
            (acc @ [toTarget entry (Target.char c)]) used))"
    proof (rule Cons.IH [OF dr])
      show "distinct (map Target.char (acc @ [toTarget entry (Target.char c)]))"
        using Cons.prems(2) fresh by simp
      show "Target.char ` set tc \<subseteq> set used" by (rule Cons.prems(3))
      show "Target.char ` set (acc @ [toTarget entry (Target.char c)]) \<subseteq> set used"
        using Cons.prems(3,4) cin by auto
      show "\<forall>e\<in>set rest. \<forall>c'. List.find (\<lambda>c. tripleT c = tripleR e) tc = Some c'
             \<longrightarrow> Target.char c' \<notin> Target.char ` set (acc @ [toTarget entry (Target.char c)])"
      proof (intro ballI allI impI)
        fix e c'
        assume e: "e \<in> set rest" and f: "List.find (\<lambda>c. tripleT c = tripleR e) tc = Some c'"
        have c'in: "c' \<in> set tc" and c't: "tripleT c' = tripleR e"
          using f by (auto simp: find_Some_iff)
        have "tripleR e \<noteq> tripleR entry" using e nr by (metis image_iff)
        then have "c' \<noteq> c" using ct c't by auto
        then have "Target.char c' \<noteq> Target.char c"
          using dc cin c'in by (auto simp: distinct_map inj_on_def)
        moreover have "Target.char c' \<notin> Target.char ` set acc" using fut e f by blast
        ultimately show "Target.char c' \<notin> Target.char ` set (acc @ [toTarget entry (Target.char c)])"
          by auto
      qed
    qed
    with Some show ?thesis by (simp add: labelLoop_Cons)
  next
    case None
    show ?thesis
    proof (cases lbls)
      case n: None
      have "distinct (map Target.char (labelLoop tc lbls rest labelIndex acc used))"
        using Cons.prems(2,3,4) fut by (intro Cons.IH [OF dr]) simp_all
      with None n show ?thesis by (simp add: labelLoop_Cons)
    next
      case (Some ls)
      show ?thesis
      proof (cases "labelIndex < length ls \<and> skipCached ls used labelIndex < length ls")
        case True
        define l where "l = ls ! skipCached ls used labelIndex"
        have lf: "l \<notin> set used" unfolding l_def using True by (simp add: skipCached_fresh)
        have "distinct (map Target.char (labelLoop tc lbls rest (skipCached ls used labelIndex)
                (acc @ [toTarget entry l]) (used @ [l])))"
        proof (rule Cons.IH [OF dr])
          show "distinct (map Target.char (acc @ [toTarget entry l]))"
            using Cons.prems(2,4) lf by auto
          show "Target.char ` set tc \<subseteq> set (used @ [l])"
            using Cons.prems(3) by auto
          show "Target.char ` set (acc @ [toTarget entry l]) \<subseteq> set (used @ [l])"
            using Cons.prems(4) by auto
          show "\<forall>e\<in>set rest. \<forall>c'. List.find (\<lambda>c. tripleT c = tripleR e) tc = Some c'
             \<longrightarrow> Target.char c' \<notin> Target.char ` set (acc @ [toTarget entry l])"
          proof (intro ballI allI impI)
            fix e c'
            assume e: "e \<in> set rest" and f: "List.find (\<lambda>c. tripleT c = tripleR e) tc = Some c'"
            have "c' \<in> set tc" using f by (auto simp: find_Some_iff)
            then have "Target.char c' \<in> set used" using Cons.prems(3) by auto
            then have "Target.char c' \<noteq> l" using lf by auto
            moreover have "Target.char c' \<notin> Target.char ` set acc" using fut e f by blast
            ultimately show "Target.char c' \<notin> Target.char ` set (acc @ [toTarget entry l])"
              by auto
          qed
        qed
        with None Some True show ?thesis by (simp add: labelLoop_Cons l_def)
      next
        case False
        have "distinct (map Target.char (labelLoop tc lbls rest
                (if labelIndex < length ls then skipCached ls used labelIndex else labelIndex) acc used))"
          using Cons.prems(2,3,4) fut by (intro Cons.IH [OF dr]) simp_all
        with None Some False show ?thesis by (auto simp: labelLoop_Cons)
      qed
    qed
  qed
qed

subsection \<open>Outputs of the labelling\<close>

lemma labelTargets_subseq: "subseq (map entryOf (labelTargets tc lbls rs)) rs"
  using labelLoop_subseq [of tc lbls rs 0 "[]" "map Target.char tc"]
  by (auto simp: labelTargets_def)

lemma effPosT_entryOf: "map effPosT ts = map effPosR (map entryOf ts)"
  by simp

lemma tripleT_entryOf: "map tripleT ts = map tripleR (map entryOf ts)"
  by simp

lemma subseq_distinct: "subseq xs ys \<Longrightarrow> distinct ys \<Longrightarrow> distinct xs"
  by (auto simp: subseq_conv_nths)

lemma labelTargets_distinct_effPos:
  assumes "distinct (map effPosR rs)"
  shows "distinct (map effPosT (labelTargets tc lbls rs))"
proof -
  have "subseq (map effPosR (map entryOf (labelTargets tc lbls rs))) (map effPosR rs)"
    by (rule subseq_map) (rule labelTargets_subseq)
  with assms show ?thesis
    unfolding effPosT_entryOf by (rule subseq_distinct [rotated])
qed

lemma distinct_effPos_tripleR: "distinct (map effPosR rs) \<Longrightarrow> distinct (map tripleR rs)"
  by (auto simp: distinct_map inj_on_def dest: triple_effPos)



lemma labelTargets_distinct_chars:
  assumes "distinct (map Target.char tc)" and "distinct (map effPosR rs)"
  shows "distinct (map Target.char (labelTargets tc lbls rs))"
  unfolding labelTargets_def
  using assms by (intro labelLoop_distinct_chars distinct_effPos_tripleR) simp_all

lemma labelTargets_chars:
  assumes "t \<in> set (labelTargets tc lbls rs)"
  shows "Target.char t \<in> Target.char ` set tc \<or> (\<exists>ls. lbls = Some ls \<and> Target.char t \<in> set ls)"
proof -
  from assms have "t \<in> set (labelLoop tc lbls rs 0 [] (map Target.char tc))"
    by (simp add: labelTargets_def)
  from labelLoop_origin [OF this] obtain entry where
    e: "case List.find (\<lambda>c. tripleT c = tripleR entry) tc of
           Some c \<Rightarrow> Target.char t = Target.char c
         | None \<Rightarrow> \<exists>ls. lbls = Some ls \<and> Target.char t \<in> set ls"
    by auto
  show ?thesis
  proof (cases "List.find (\<lambda>c. tripleT c = tripleR entry) tc")
    case None
    with e show ?thesis by simp
  next
    case (Some c)
    then have "c \<in> set tc" by (auto simp: find_Some_iff)
    with e Some show ?thesis by auto
  qed
qed


subsection \<open>Outputs of \<^verbatim>\<open>getTarget\<close>\<close>

lemma aggregate_Inr_distinct:
  "aggregate e inp ws = Inr rs \<Longrightarrow> distinct (map effPosR rs)"
  by (auto simp: aggregate_def dedup_distinct split: sum.splits if_splits)

lemma getTarget_Inr:
  assumes "getTarget e tc ws inp lbls = (Inr out, tc')"
  shows "(inp = [] \<and> out = [] \<and> tc' = tc) \<or>
         (inp \<noteq> [] \<and> tc' = out \<and> (\<exists>rs. aggregate e inp ws = Inr rs \<and> out = labelTargets tc lbls rs))"
  using assms by (auto simp: getTarget_def Let_def split: if_splits sum.splits)

lemma getTarget_Inl:
  assumes "getTarget e tc ws inp lbls = (Inl err, tc')"
  shows "tc' = tc"
  using assms by (auto simp: getTarget_def Let_def split: if_splits sum.splits)

lemma getTarget_distinct_effPos:
  assumes "getTarget e tc ws inp lbls = (Inr out, tc')"
  shows "distinct (map effPosT out)"
  using getTarget_Inr [OF assms]
  by (auto dest!: aggregate_Inr_distinct intro: labelTargets_distinct_effPos)

lemma getTarget_distinct_chars:
  assumes "getTarget e tc ws inp lbls = (Inr out, tc')" and "distinct (map Target.char tc)"
  shows "distinct (map Target.char out)"
  using getTarget_Inr [OF assms(1)] assms(2)
  by (auto dest!: aggregate_Inr_distinct intro: labelTargets_distinct_chars)

lemma getTarget_chars:
  assumes "getTarget e tc ws inp lbls = (Inr out, tc')"
  shows "Target.char ` set out \<subseteq> Target.char ` set tc \<union> (case lbls of None \<Rightarrow> {} | Some ls \<Rightarrow> set ls)"
proof
  fix x assume "x \<in> Target.char ` set out"
  then obtain t where t: "t \<in> set out" "x = Target.char t" by auto
  from getTarget_Inr [OF assms] t(1) obtain rs where "t \<in> set (labelTargets tc lbls rs)"
    by auto
  from labelTargets_chars [OF this] t(2)
  show "x \<in> Target.char ` set tc \<union> (case lbls of None \<Rightarrow> {} | Some ls \<Rightarrow> set ls)"
    by auto
qed

lemma cacheOk_getTarget:
  assumes "cacheOk lbls tc"
  shows "cacheOk lbls (snd (getTarget e tc ws inp lbls))"
proof (cases "getTarget e tc ws inp lbls")
  case (Pair r tc')
  show ?thesis
  proof (cases r)
    case (Inl err)
    with Pair have "tc' = tc" by (simp add: getTarget_Inl)
    with Pair assms show ?thesis by simp
  next
    case (Inr out)
    with Pair have g: "getTarget e tc ws inp lbls = (Inr out, tc')" by simp
    from getTarget_Inr [OF g] have "tc' = tc \<or> tc' = out" by auto
    moreover have "cacheOk lbls out"
      using getTarget_distinct_chars [OF g] getTarget_distinct_effPos [OF g] getTarget_chars [OF g] assms
      by (auto simp: cacheOk_def)
    ultimately show ?thesis using Pair assms by auto
  qed
qed

lemma cacheOk_runCalls: "cacheOk lbls tc \<Longrightarrow> cacheOk lbls (runCalls e lbls tc cs)"
  by (induction cs arbitrary: tc) (auto simp: cacheOk_getTarget)

lemma cacheOk_empty: "cacheOk lbls []"
  by (simp add: cacheOk_def)


lemma filter_distinct_le1:
  "distinct (map f xs) \<Longrightarrow> length (filter (\<lambda>x. f x = k) xs) \<le> Suc 0"
proof (induction xs)
  case Nil
  show ?case by simp
next
  case (Cons x xs)
  show ?case
  proof (cases "f x = k")
    case True
    from Cons.prems have "f x \<notin> f ` set xs" by simp
    then have "\<forall>y\<in>set xs. f y \<noteq> f x" by (metis image_iff)
    with True have "filter (\<lambda>x. f x = k) xs = []"
      by (simp add: filter_empty_conv)
    with True show ?thesis by simp
  next
    case False
    with Cons show ?thesis by simp
  qed
qed



lemma aggregate_eq:
  assumes "''fzf'' \<in> set (matchers e) \<Longrightarrow> fzf e inp ws = Inr fs"
      and "''fzf'' \<notin> set (matchers e) \<Longrightarrow> fs = []"
      and "''kensaku'' \<in> set (matchers e) \<Longrightarrow> kensaku e inp ws = Inr ks"
      and "''kensaku'' \<notin> set (matchers e) \<Longrightarrow> ks = []"
  shows "aggregate e inp ws = Inr (dedup (fs @ ks))"
  using assms by (cases "''fzf'' \<in> set (matchers e)"; cases "''kensaku'' \<in> set (matchers e)")
    (simp_all add: aggregate_def)

section \<open>Properties of the session\<close>

subsection \<open>Folds of the delete calls\<close>

lemma Diff_single_insert2: "A - {a} - B = A - insert a B"
  by blast

lemma foldl_del_extmark:
  "foldl (nvim_buf_del_extmark ns) ed ids =
     ed\<lparr>extmarks := extmarks ed - set ids, calls := calls ed @ map (NvimBufDelExtmark ns) ids\<rparr>"
  by (induction ids arbitrary: ed) (auto simp: nvim_buf_del_extmark_def Diff_single_insert2)

lemma foldl_prop_remove:
  "foldl prop_remove ed ids =
     ed\<lparr>props := props ed - set ids, calls := calls ed @ map PropRemove ids\<rparr>"
  by (induction ids arbitrary: ed) (auto simp: prop_remove_def Diff_single_insert2)

lemma foldl_popup_close:
  "foldl popup_close ed ids =
     ed\<lparr>popups := popups ed - set ids, calls := calls ed @ map PopupClose ids\<rparr>"
  by (induction ids arbitrary: ed) (auto simp: popup_close_def Diff_single_insert2)

lemma foldl_matchdelete:
  "foldl matchdelete ed ids =
     ed\<lparr>matches := matches ed - set ids, calls := calls ed @ map MatchDelete ids\<rparr>"
  by (induction ids arbitrary: ed) (auto simp: matchdelete_def Diff_single_insert2)

subsection \<open>Unmounting and mounting\<close>

lemma unmountTargets_fields:
  "markIds (unmountTargets cfg st) = []"
  "targetMatchIds (unmountTargets cfg st) = []"
  "popupIds (unmountTargets cfg st) = (if host cfg = Nvim then popupIds st else [])"
  "targetCache (unmountTargets cfg st) = targetCache st"
  "input (unmountTargets cfg st) = input st"
  "textPropId (unmountTargets cfg st) = textPropId st"
  by (cases "host cfg"; simp add: unmountTargets_def Let_def)+

lemma unmountTargets_editor:
  "extmarks (editor (unmountTargets cfg st)) =
     (if host cfg = Nvim then extmarks (editor st) - set (markIds st) else extmarks (editor st))"
  "props (editor (unmountTargets cfg st)) =
     (if host cfg = Nvim then props (editor st) else props (editor st) - set (markIds st))"
  "popups (editor (unmountTargets cfg st)) =
     (if host cfg = Nvim then popups (editor st) else popups (editor st) - set (popupIds st))"
  "matches (editor (unmountTargets cfg st)) = matches (editor st) - set (targetMatchIds st)"
  "nextId (editor (unmountTargets cfg st)) = nextId (editor st)"
  by (cases "host cfg";
      simp add: unmountTargets_def Let_def foldl_del_extmark foldl_prop_remove foldl_popup_close
        foldl_matchdelete)+

lemma mountTarget_fields:
  "targetCache (mountTarget cfg index target st) = targetCache st"
  "input (mountTarget cfg index target st) = input st"
  by (cases "host cfg";
      simp add: mountTarget_def Let_def nvim_buf_set_extmark_def prop_add_def popup_create_def
        matchaddpos_def split: prod.splits)+

lemma mountLoop_fields:
  "targetCache (mountLoop cfg index targets st) = targetCache st"
  "input (mountLoop cfg index targets st) = input st"
  by (induction targets arbitrary: index st) (simp_all add: mountTarget_fields)

subsection \<open>One pass through the loop\<close>

lemma render_input: "input (snd (render cfg st)) = input st"
  by (simp add: render_def Let_def mountTargets_def mountLoop_fields unmountTargets_fields
        split: prod.splits sum.splits)

text \<open>The chain of comparisons that follows the \<^verbatim>\<open>assert\<close>, for a code that is a number.\<close>

lemma dispatch_chain:
  assumes "\<not> (key = ENTER \<and> length targets = 0)"
      and "(if key = ENTER then charCodeAt0 (Target.char (targets ! 0)) else Some key) = Some code"
  shows "dispatch cfg targets (Code key) st =
     (if code = ESC then (Some Broke, st)
      else if List.find (\<lambda>label. charCodeAt0 label = Some code) (labels cfg) \<noteq> None then
        (case List.find (\<lambda>target. Target.char target = fromCharCode code) targets of
           Some target \<Rightarrow> (Some Broke, st\<lparr>editor := jumpTarget target (editor st)\<rparr>)
         | None \<Rightarrow> (None, st))
      else if code = BS \<or> code = C_H then
        (None, st\<lparr>targetCache := [], input := butlast (input st)\<rparr>)
      else if code = C_W then
        (None, st\<lparr>targetCache := [], input := []\<rparr>)
      else if SPACE \<le> code \<and> code \<le> TILDE then
        (case getTarget (matcherEnv cfg) (targetCache st) (words cfg) (input st @ nr2char code)
                (Some (labels cfg)) of
           (Inl err, cache) \<Rightarrow> (Some (Threw err), st\<lparr>input := input st @ nr2char code, targetCache := cache\<rparr>)
         | (Inr targets', cache) \<Rightarrow>
             if autoJump cfg \<and> length targets' = 1
             then (Some Broke,
                   st\<lparr>input := input st @ nr2char code, targetCache := cache,
                      editor := jumpTarget (targets' ! 0) (editor st)\<rparr>)
             else (None, st\<lparr>input := input st @ nr2char code, targetCache := cache\<rparr>))
      else (None, st))"
  unfolding dispatch_def event.case Let_def
  apply (subst if_not_P [OF assms(1)])
  apply (subst assms(2))
  apply (simp only: option.case)
  done

lemma jumpTarget_frame:
  "extmarks (jumpTarget t ed) = extmarks ed" "props (jumpTarget t ed) = props ed"
  "popups (jumpTarget t ed) = popups ed" "matches (jumpTarget t ed) = matches ed"
  "nextId (jumpTarget t ed) = nextId ed"
  "calls (jumpTarget t ed) =
     calls ed @ [Execute ''normal! m`'', Cursor (line (Target.pos t)) (col (Target.pos t) + Target.start t)]"
  by (simp_all add: jumpTarget_def execute_def cursor_def)

subsection \<open>The loop after a successful render\<close>

lemma loop_Cons_rendered:
  assumes "render cfg st0 = (Inr targets, st)"
  shows "loop cfg (ev # evs) st0 =
           (case dispatch cfg targets ev st of
              (None, st2) \<Rightarrow> loop cfg evs st2
            | (Some ex, st2) \<Rightarrow> (Some ex, st2))"
  using assms by simp

lemma rendered_input:
  assumes "render cfg st0 = (r, st)"
  shows "input st = input st0"
  using render_input [of cfg st0] assms by simp

lemma find_label_iff:
  "List.find (\<lambda>label. charCodeAt0 label = Some key) ls \<noteq> None
     \<longleftrightarrow> (\<exists>label\<in>set ls. charCodeAt0 label = Some key)"
  by (auto simp: find_None_iff)

lemma char_of_s: "char_of (115 :: nat) = CHR ''s''"
  by code_simp

lemma char_of_x: "char_of (120 :: nat) = CHR ''x''"
  by code_simp


section \<open>Properties of the session with rejected requests\<close>

subsection \<open>Awaits and requests\<close>

lemma awaits_snd: "\<exists>n. snd (awaits w k r) = r\<lparr>awaited := n\<rparr>"
proof (induction k arbitrary: r)
  case 0
  have "r = r\<lparr>awaited := awaited r\<rparr>" by simp
  then show ?case by (metis awaits.simps(1) snd_conv)
next
  case (Suc k)
  show ?case
  proof (cases "rejects w (awaited r)")
    case True
    then show ?thesis by (auto simp: await_def)
  next
    case False
    from Suc [of "r\<lparr>awaited := Suc (awaited r)\<rparr>"] False show ?thesis
      by (auto simp: await_def)
  qed
qed

lemma request_snd:
  "snd (request w c ed' r) = r\<lparr>awaited := Suc (awaited r), editor := (if rejects w (awaited r) then sent c (editor r) else ed')\<rparr>"
  by (simp add: request_def await_def)

lemma requestAll_snd: "\<exists>ed n. snd (requestAll w c answer ids r) = r\<lparr>editor := ed, awaited := n\<rparr>"
proof (induction ids arbitrary: r)
  case Nil
  have "r = r\<lparr>editor := editor r, awaited := awaited r\<rparr>" by simp
  then show ?case by (metis requestAll.simps(1) snd_conv)
next
  case (Cons i ids)
  let ?r1 = "snd (request w (c i) (answer (editor r) i) r)"
  from Cons [of ?r1] obtain ed n where
    "snd (requestAll w c answer ids ?r1) = ?r1\<lparr>editor := ed, awaited := n\<rparr>" by blast
  then have "snd (requestAll w c answer (i # ids) r) = r\<lparr>editor := ed, awaited := n\<rparr>"
    by (simp add: split_beta request_snd)
  then show ?case by blast
qed

lemma requestAll_frame:
  "markIds (snd (requestAll w c answer ids r)) = markIds r"
  "popupIds (snd (requestAll w c answer ids r)) = popupIds r"
  "targetMatchIds (snd (requestAll w c answer ids r)) = targetMatchIds r"
  "targetCache (snd (requestAll w c answer ids r)) = targetCache r"
  "textPropId (snd (requestAll w c answer ids r)) = textPropId r"
  "input (snd (requestAll w c answer ids r)) = input r"
  "pending (snd (requestAll w c answer ids r)) = pending r"
  using requestAll_snd [of w c answer ids r] by auto

lemma requestAll_del_extmark:
  "props (editor (snd (requestAll w (NvimBufDelExtmark ns) (nvim_buf_del_extmark ns) ids r))) = props (editor r) \<and>
   popups (editor (snd (requestAll w (NvimBufDelExtmark ns) (nvim_buf_del_extmark ns) ids r))) = popups (editor r) \<and>
   matches (editor (snd (requestAll w (NvimBufDelExtmark ns) (nvim_buf_del_extmark ns) ids r))) = matches (editor r) \<and>
   nextId (editor (snd (requestAll w (NvimBufDelExtmark ns) (nvim_buf_del_extmark ns) ids r))) = nextId (editor r) \<and>
   extmarks (editor r) - set ids \<subseteq> extmarks (editor (snd (requestAll w (NvimBufDelExtmark ns) (nvim_buf_del_extmark ns) ids r))) \<and>
   extmarks (editor (snd (requestAll w (NvimBufDelExtmark ns) (nvim_buf_del_extmark ns) ids r))) \<subseteq> extmarks (editor r) \<and>
   (fst (requestAll w (NvimBufDelExtmark ns) (nvim_buf_del_extmark ns) ids r) \<longrightarrow> extmarks (editor (snd (requestAll w (NvimBufDelExtmark ns) (nvim_buf_del_extmark ns) ids r))) = extmarks (editor r) - set ids)"
proof (induction ids arbitrary: r)
  case Nil
  show ?case by simp
next
  case (Cons i ids)
  let ?r1 = "snd (request w ((NvimBufDelExtmark ns) i) ((nvim_buf_del_extmark ns) (editor r) i) r)"
  note ih = Cons.IH [of ?r1]
  have e: "extmarks (editor r) - {i} \<subseteq> extmarks (editor ?r1)" "extmarks (editor ?r1) \<subseteq> extmarks (editor r)"
    "fst (request w ((NvimBufDelExtmark ns) i) ((nvim_buf_del_extmark ns) (editor r) i) r) \<longrightarrow> extmarks (editor ?r1) = extmarks (editor r) - {i}"
    "props (editor ?r1) = props (editor r)" "popups (editor ?r1) = popups (editor r)" "matches (editor ?r1) = matches (editor r)" "nextId (editor ?r1) = nextId (editor r)"
    by (auto simp: request_def await_def sent_def nvim_buf_del_extmark_def)
  have s: "snd (requestAll w (NvimBufDelExtmark ns) (nvim_buf_del_extmark ns) (i # ids) r)
             = snd (requestAll w (NvimBufDelExtmark ns) (nvim_buf_del_extmark ns) ids ?r1)"
    and f: "fst (requestAll w (NvimBufDelExtmark ns) (nvim_buf_del_extmark ns) (i # ids) r)
             = (fst (request w ((NvimBufDelExtmark ns) i) ((nvim_buf_del_extmark ns) (editor r) i) r) \<and>
                fst (requestAll w (NvimBufDelExtmark ns) (nvim_buf_del_extmark ns) ids ?r1))"
    by (simp_all add: split_beta)
  show ?case
    unfolding s f using ih e by auto
qed

lemma requestAll_prop_remove:
  "extmarks (editor (snd (requestAll w PropRemove prop_remove ids r))) = extmarks (editor r) \<and>
   popups (editor (snd (requestAll w PropRemove prop_remove ids r))) = popups (editor r) \<and>
   matches (editor (snd (requestAll w PropRemove prop_remove ids r))) = matches (editor r) \<and>
   nextId (editor (snd (requestAll w PropRemove prop_remove ids r))) = nextId (editor r) \<and>
   props (editor r) - set ids \<subseteq> props (editor (snd (requestAll w PropRemove prop_remove ids r))) \<and>
   props (editor (snd (requestAll w PropRemove prop_remove ids r))) \<subseteq> props (editor r) \<and>
   (fst (requestAll w PropRemove prop_remove ids r) \<longrightarrow> props (editor (snd (requestAll w PropRemove prop_remove ids r))) = props (editor r) - set ids)"
proof (induction ids arbitrary: r)
  case Nil
  show ?case by simp
next
  case (Cons i ids)
  let ?r1 = "snd (request w (PropRemove i) (prop_remove (editor r) i) r)"
  note ih = Cons.IH [of ?r1]
  have e: "props (editor r) - {i} \<subseteq> props (editor ?r1)" "props (editor ?r1) \<subseteq> props (editor r)"
    "fst (request w (PropRemove i) (prop_remove (editor r) i) r) \<longrightarrow> props (editor ?r1) = props (editor r) - {i}"
    "extmarks (editor ?r1) = extmarks (editor r)" "popups (editor ?r1) = popups (editor r)" "matches (editor ?r1) = matches (editor r)" "nextId (editor ?r1) = nextId (editor r)"
    by (auto simp: request_def await_def sent_def prop_remove_def)
  have s: "snd (requestAll w PropRemove prop_remove (i # ids) r)
             = snd (requestAll w PropRemove prop_remove ids ?r1)"
    and f: "fst (requestAll w PropRemove prop_remove (i # ids) r)
             = (fst (request w (PropRemove i) (prop_remove (editor r) i) r) \<and>
                fst (requestAll w PropRemove prop_remove ids ?r1))"
    by (simp_all add: split_beta)
  show ?case
    unfolding s f using ih e by auto
qed

lemma requestAll_popup_close:
  "extmarks (editor (snd (requestAll w PopupClose popup_close ids r))) = extmarks (editor r) \<and>
   props (editor (snd (requestAll w PopupClose popup_close ids r))) = props (editor r) \<and>
   matches (editor (snd (requestAll w PopupClose popup_close ids r))) = matches (editor r) \<and>
   nextId (editor (snd (requestAll w PopupClose popup_close ids r))) = nextId (editor r) \<and>
   popups (editor r) - set ids \<subseteq> popups (editor (snd (requestAll w PopupClose popup_close ids r))) \<and>
   popups (editor (snd (requestAll w PopupClose popup_close ids r))) \<subseteq> popups (editor r) \<and>
   (fst (requestAll w PopupClose popup_close ids r) \<longrightarrow> popups (editor (snd (requestAll w PopupClose popup_close ids r))) = popups (editor r) - set ids)"
proof (induction ids arbitrary: r)
  case Nil
  show ?case by simp
next
  case (Cons i ids)
  let ?r1 = "snd (request w (PopupClose i) (popup_close (editor r) i) r)"
  note ih = Cons.IH [of ?r1]
  have e: "popups (editor r) - {i} \<subseteq> popups (editor ?r1)" "popups (editor ?r1) \<subseteq> popups (editor r)"
    "fst (request w (PopupClose i) (popup_close (editor r) i) r) \<longrightarrow> popups (editor ?r1) = popups (editor r) - {i}"
    "extmarks (editor ?r1) = extmarks (editor r)" "props (editor ?r1) = props (editor r)" "matches (editor ?r1) = matches (editor r)" "nextId (editor ?r1) = nextId (editor r)"
    by (auto simp: request_def await_def sent_def popup_close_def)
  have s: "snd (requestAll w PopupClose popup_close (i # ids) r)
             = snd (requestAll w PopupClose popup_close ids ?r1)"
    and f: "fst (requestAll w PopupClose popup_close (i # ids) r)
             = (fst (request w (PopupClose i) (popup_close (editor r) i) r) \<and>
                fst (requestAll w PopupClose popup_close ids ?r1))"
    by (simp_all add: split_beta)
  show ?case
    unfolding s f using ih e by auto
qed

subsection \<open>The invariant in the first half of the loop body\<close>

lemma unmountTargetsR_frame:
  "targetCache (snd (unmountTargetsR w cfg r)) = targetCache r"
  "input (snd (unmountTargetsR w cfg r)) = input r"
  "pending (snd (unmountTargetsR w cfg r)) = pending r"
  "textPropId (snd (unmountTargetsR w cfg r)) = textPropId r"
  by (cases "host cfg"; simp add: unmountTargetsR_def split_beta requestAll_frame)+

lemma covered_unmountTargetsR:
  assumes "covered cfg ed0 shadeIds r"
  shows "covered cfg ed0 shadeIds (snd (unmountTargetsR w cfg r))"
proof (cases "host cfg")
  case Nvim
  let ?R = "requestAll w (NvimBufDelExtmark (namespace cfg)) (nvim_buf_del_extmark (namespace cfg)) (markIds r) r"
  note e = requestAll_del_extmark [of w "namespace cfg" "markIds r" r]
  show ?thesis
  proof (cases "fst ?R")
    case True
    with Nvim have s: "snd (unmountTargetsR w cfg r) =
        (snd ?R)\<lparr>editor := foldl matchdelete (editor (snd ?R)) (targetMatchIds (snd ?R)),
                    markIds := [], targetMatchIds := []\<rparr>"
      by (simp add: unmountTargetsR_def split_beta)
    from e True have x: "extmarks (editor (snd ?R)) = extmarks (editor r) - set (markIds r)" by blast
    show ?thesis
      unfolding s covered_def using assms Nvim e x
      by (auto simp: covered_def foldl_matchdelete requestAll_frame)
  next
    case False
    with Nvim have s: "snd (unmountTargetsR w cfg r) = snd ?R"
      by (simp add: unmountTargetsR_def split_beta)
    show ?thesis
      unfolding s covered_def using assms Nvim e
      by (auto simp: covered_def requestAll_frame)
  qed
next
  case Vim
  let ?R1 = "requestAll w PropRemove prop_remove (markIds r) r"
  let ?R2 = "requestAll w PopupClose popup_close (popupIds (snd ?R1)) (snd ?R1)"
  note e1 = requestAll_prop_remove [of w "markIds r" r]
  note e2 = requestAll_popup_close [of w "popupIds (snd ?R1)" "snd ?R1"]
  have h: "host cfg \<noteq> Nvim" using Vim by simp
  show ?thesis
  proof (cases "fst ?R1")
    case False
    with Vim have s: "snd (unmountTargetsR w cfg r) = snd ?R1"
      by (simp add: unmountTargetsR_def split_beta)
    show ?thesis
      unfolding s covered_def using assms h e1
      by (auto simp: covered_def requestAll_frame)
  next
    case True
    from e1 True have x1: "props (editor (snd ?R1)) = props (editor r) - set (markIds r)" by blast
    show ?thesis
    proof (cases "fst ?R2")
      case False
      with True Vim have s: "snd (unmountTargetsR w cfg r) = snd ?R2"
        by (simp add: unmountTargetsR_def split_beta)
      show ?thesis
        unfolding s covered_def using assms h e1 e2
        by (auto simp: covered_def requestAll_frame)
    next
      case t2: True
      with True Vim have s: "snd (unmountTargetsR w cfg r) =
          (snd ?R2)\<lparr>popupIds := [],
                      editor := foldl matchdelete (editor (snd ?R2)) (targetMatchIds (snd ?R2)),
                      markIds := [], targetMatchIds := []\<rparr>"
        by (simp add: unmountTargetsR_def split_beta)
      from e2 t2 have x2: "popups (editor (snd ?R2)) = popups (editor (snd ?R1)) - set (popupIds (snd ?R1))"
        by blast
      show ?thesis
        unfolding s covered_def using assms h e1 e2 x1 x2
        by (auto simp: covered_def foldl_matchdelete requestAll_frame)
    qed
  qed
qed

lemma request_cases:
  obtains "fst (request w c ed' r) = False" "snd (request w c ed' r) = r\<lparr>awaited := Suc (awaited r), editor := sent c (editor r)\<rparr>"
  | "fst (request w c ed' r) = True" "snd (request w c ed' r) = r\<lparr>awaited := Suc (awaited r), editor := ed'\<rparr>"
  by (cases "rejects w (awaited r)") (simp_all add: request_def await_def)

lemma covered_awaited [simp]: "covered cfg ed0 ids (r\<lparr>awaited := n\<rparr>) = covered cfg ed0 ids r"
  by (simp add: covered_def)

lemma covered_sent [simp]:
  "covered cfg ed0 ids (r\<lparr>editor := sent c (editor r)\<rparr>) = covered cfg ed0 ids r"
  by (simp add: covered_def sent_def)

lemma covered_mountMatchR:
  assumes "covered cfg ed0 shadeIds r"
  shows "covered cfg ed0 shadeIds (snd (mountMatchR w target r))"
proof -
  let ?position = "[line (Target.pos target), col (Target.pos target) + Target.start target,
                      Target.end target - Target.start target]"
  let ?ed = "snd (matchaddpos ''FuzzyMotionMatch'' ?position 20 (editor r))"
  let ?c = "MatchAddPos ''FuzzyMotionMatch'' ?position 20"
  show ?thesis
  proof (cases rule: request_cases [of w ?c ?ed r])
    case 1
    then have "snd (mountMatchR w target r) = r\<lparr>awaited := Suc (awaited r), editor := sent ?c (editor r)\<rparr>"
      by (simp add: mountMatchR_def Let_def split_beta)
    then show ?thesis using assms by (auto simp: covered_def sent_def)
  next
    case 2
    then have "snd (mountMatchR w target r) =
       r\<lparr>awaited := Suc (awaited r), editor := ?ed,
          targetMatchIds := targetMatchIds r @ [nextId (editor r)]\<rparr>"
      by (simp add: mountMatchR_def Let_def split_beta matchaddpos_def)
    then show ?thesis using assms by (auto simp: covered_def matchaddpos_def less_Suc_eq)
  qed
qed


lemma mountMatchR_frame:
  "targetCache (snd (mountMatchR w target r)) = targetCache r"
  "input (snd (mountMatchR w target r)) = input r"
  "pending (snd (mountMatchR w target r)) = pending r"
  by (simp_all add: mountMatchR_def Let_def split_beta request_def await_def)

lemma covered_mountLabelR:
  assumes "covered cfg ed0 shadeIds r"
  shows "covered cfg ed0 shadeIds (snd (mountLabelR w cfg hl target r))"
proof (cases "host cfg")
  case Nvim
  let ?k = "if colOffset cfg target = 0 then 3 else 4 :: nat"
  obtain n where a: "snd (awaits w ?k r) = r\<lparr>awaited := n\<rparr>"
    using awaits_snd by blast
  let ?r1 = "r\<lparr>awaited := n\<rparr>"
  let ?col = "col (Target.pos target) + Target.start target - 1 - colOffset cfg target"
  let ?vt = "padStart (widthBaseText cfg target) (Target.char target)"
  let ?c = "NvimBufSetExtmark (namespace cfg) (line (Target.pos target) - 1) ?col ?vt hl"
  let ?ed = "snd (nvim_buf_set_extmark (namespace cfg) (line (Target.pos target) - 1) ?col ?vt hl (editor ?r1))"
  show ?thesis
  proof (cases "fst (awaits w ?k r)")
    case False
    with Nvim a have "snd (mountLabelR w cfg hl target r) = ?r1"
      by (simp add: mountLabelR_def split_beta)
    then show ?thesis using assms by simp
  next
    case True
    show ?thesis
    proof (cases rule: request_cases [of w ?c ?ed ?r1])
      case 1
      with Nvim a True have "snd (mountLabelR w cfg hl target r) =
          ?r1\<lparr>awaited := Suc (awaited ?r1), editor := sent ?c (editor ?r1)\<rparr>"
        by (simp add: mountLabelR_def split_beta Let_def)
      then show ?thesis using assms by (auto simp: covered_def sent_def)
    next
      case 2
      with Nvim a True have "snd (mountLabelR w cfg hl target r) =
          ?r1\<lparr>awaited := Suc (awaited ?r1), editor := ?ed, markIds := markIds r @ [nextId (editor r)]\<rparr>"
        by (simp add: mountLabelR_def split_beta Let_def nvim_buf_set_extmark_def)
      then show ?thesis using assms Nvim
        by (auto simp: covered_def nvim_buf_set_extmark_def less_Suc_eq)
    qed
  qed
next
  case Vim
  have h: "host cfg \<noteq> Nvim" using Vim by simp
  let ?p = "textPropId r + 1"
  let ?r1 = "r\<lparr>textPropId := ?p, markIds := markIds r @ [?p]\<rparr>"
  let ?c1 = "PropAdd (line (Target.pos target)) (col (Target.pos target) + Target.start target) ?p"
  let ?ed1 = "prop_add (line (Target.pos target)) (col (Target.pos target) + Target.start target) ?p (editor ?r1)"
  show ?thesis
  proof (cases rule: request_cases [of w ?c1 ?ed1 ?r1])
    case 1
    with Vim have "snd (mountLabelR w cfg hl target r) =
        ?r1\<lparr>awaited := Suc (awaited ?r1), editor := sent ?c1 (editor ?r1)\<rparr>"
      by (simp add: mountLabelR_def split_beta Let_def)
    then show ?thesis using assms h
      by (auto simp: covered_def sent_def)
  next
    case 2
    let ?r2 = "?r1\<lparr>awaited := Suc (awaited ?r1), editor := ?ed1\<rparr>"
    let ?c2 = "PopupCreate (Target.char target) ?p hl"
    let ?ed2 = "snd (popup_create (Target.char target) ?p hl (editor ?r2))"
    show ?thesis
    proof (cases rule: request_cases [of w ?c2 ?ed2 ?r2])
      case a: 1
      with 2 Vim have "snd (mountLabelR w cfg hl target r) =
          ?r2\<lparr>awaited := Suc (awaited ?r2), editor := sent ?c2 (editor ?r2)\<rparr>"
        by (simp add: mountLabelR_def split_beta Let_def)
      then show ?thesis using assms h
        by (auto simp: covered_def sent_def prop_add_def)
    next
      case b: 2
      with 2 Vim have "snd (mountLabelR w cfg hl target r) =
          ?r2\<lparr>awaited := Suc (awaited ?r2), editor := ?ed2,
               popupIds := popupIds r @ [nextId (editor r)]\<rparr>"
        by (simp add: mountLabelR_def split_beta Let_def popup_create_def prop_add_def)
      then show ?thesis using assms h
        by (auto simp: covered_def prop_add_def popup_create_def less_Suc_eq)
    qed
  qed
qed

lemma mountLabelR_frame:
  "targetCache (snd (mountLabelR w cfg hl target r)) = targetCache r \<and>
   input (snd (mountLabelR w cfg hl target r)) = input r \<and>
   pending (snd (mountLabelR w cfg hl target r)) = pending r"
proof -
  obtain n where a: "snd (awaits w (if colOffset cfg target = 0 then 3 else 4) r) = r\<lparr>awaited := n\<rparr>"
    using awaits_snd by blast
  show ?thesis
    by (cases "host cfg") (simp_all add: mountLabelR_def Let_def split_beta request_def await_def a)
qed

lemma mountTargetR_frame:
  "targetCache (snd (mountTargetR w cfg index target r)) = targetCache r"
  "input (snd (mountTargetR w cfg index target r)) = input r"
  "pending (snd (mountTargetR w cfg index target r)) = pending r"
  by (simp_all add: mountTargetR_def split_beta mountMatchR_frame mountLabelR_frame)

lemma covered_mountTargetR:
  assumes "covered cfg ed0 shadeIds r"
  shows "covered cfg ed0 shadeIds (snd (mountTargetR w cfg index target r))"
  using covered_mountLabelR [OF assms] covered_mountMatchR
  by (simp add: mountTargetR_def split_beta)

lemma mountLoopR_frame:
  "targetCache (snd (mountLoopR w cfg index targets r)) = targetCache r \<and>
   input (snd (mountLoopR w cfg index targets r)) = input r \<and>
   pending (snd (mountLoopR w cfg index targets r)) = pending r"
  by (induction targets arbitrary: index r) (simp_all add: split_beta mountTargetR_frame)

lemma covered_mountLoopR:
  "covered cfg ed0 shadeIds r \<Longrightarrow> covered cfg ed0 shadeIds (snd (mountLoopR w cfg index targets r))"
  by (induction targets arbitrary: index r) (simp_all add: split_beta covered_mountTargetR)

lemma mountTargetsR_frame:
  "targetCache (snd (mountTargetsR w cfg targets r)) = targetCache r"
  "input (snd (mountTargetsR w cfg targets r)) = input r"
  "pending (snd (mountTargetsR w cfg targets r)) = pending r"
  by (simp_all add: mountTargetsR_def split_beta await_def mountLoopR_frame)

lemma covered_mountTargetsR:
  "covered cfg ed0 shadeIds r \<Longrightarrow> covered cfg ed0 shadeIds (snd (mountTargetsR w cfg targets r))"
  by (simp add: mountTargetsR_def split_beta await_def covered_mountLoopR)

lemma covered_targetCache [simp]:
  "covered cfg ed0 ids (r\<lparr>targetCache := c\<rparr>) = covered cfg ed0 ids r"
  by (simp add: covered_def)

lemma covered_input [simp]:
  "covered cfg ed0 ids (r\<lparr>input := i\<rparr>) = covered cfg ed0 ids r"
  by (simp add: covered_def)

lemma covered_pending [simp]:
  "covered cfg ed0 ids (r\<lparr>pending := p\<rparr>) = covered cfg ed0 ids r"
  by (simp add: covered_def)

lemma covered_execute [simp]:
  "covered cfg ed0 ids (r\<lparr>editor := execute cmd (editor r)\<rparr>) = covered cfg ed0 ids r"
  by (simp add: covered_def execute_def)

lemma getTargetR_frame:
  "input (snd (getTargetR w cfg inp r)) = input r"
  "pending (snd (getTargetR w cfg inp r)) = pending r"
  by (simp_all add: getTargetR_def split_beta await_def)

lemma covered_getTargetR:
  "covered cfg ed0 shadeIds r \<Longrightarrow> covered cfg ed0 shadeIds (snd (getTargetR w cfg inp r))"
  by (simp add: getTargetR_def split_beta await_def)

lemma covered_request_execute:
  "covered cfg ed0 shadeIds r \<Longrightarrow>
   covered cfg ed0 shadeIds (snd (request w (Execute cmd) (execute cmd (editor r)) r))"
  by (cases rule: request_cases [of w "Execute cmd" "execute cmd (editor r)" r])
     (auto simp: covered_def sent_def execute_def)

lemma request_frame:
  "targetCache (snd (request w c ed' r)) = targetCache r"
  "input (snd (request w c ed' r)) = input r"
  "pending (snd (request w c ed' r)) = pending r"
  by (simp_all add: request_def await_def)

lemma renderR_frame:
  "input (snd (renderR w cfg r)) = input r"
  "pending (snd (renderR w cfg r)) = pending r"
  by (simp_all add: renderR_def split_beta request_frame unmountTargetsR_frame getTargetR_frame
        mountTargetsR_frame split: sum.splits)

lemma covered_renderR:
  assumes "covered cfg ed0 shadeIds r"
  shows "covered cfg ed0 shadeIds (snd (renderR w cfg r))"
proof -
  let ?r1 = "snd (request w (Execute (echoPrompt (input r))) (execute (echoPrompt (input r)) (editor r)) r)"
  let ?r2 = "snd (unmountTargetsR w cfg ?r1)"
  let ?r3 = "snd (getTargetR w cfg (input ?r2) ?r2)"
  have c1: "covered cfg ed0 shadeIds ?r1" using assms by (rule covered_request_execute)
  then have c2: "covered cfg ed0 shadeIds ?r2" by (rule covered_unmountTargetsR)
  then have c3: "covered cfg ed0 shadeIds ?r3" by (rule covered_getTargetR)
  have c4: "covered cfg ed0 shadeIds (snd (mountTargetsR w cfg targets ?r3))" for targets
    using c3 by (rule covered_mountTargetsR)
  have c5: "covered cfg ed0 shadeIds
      (snd (request w (Execute ''redraw'') (execute ''redraw'' (editor (snd (mountTargetsR w cfg targets ?r3))))
             (snd (mountTargetsR w cfg targets ?r3))))" for targets
    using c4 by (rule covered_request_execute)
  show ?thesis
    using c1 c2 c3 c4 c5 by (simp add: renderR_def split_beta split: sum.splits)
qed

subsection \<open>The invariant in the second half and in the loop\<close>

text \<open>The chain of comparisons of the second half, for a key that was read and is a number.\<close>

lemma dispatchR_chain:
  assumes "await w r0 = (True, r)"
      and "\<not> (key = ENTER \<and> length targets = 0)"
      and "(if key = ENTER then charCodeAt0 (Target.char (targets ! 0)) else Some key) = Some code"
  shows "dispatchR w cfg targets (Code key) r0 =
     (if code = ESC then (Some Broke, r)
      else if List.find (\<lambda>label. charCodeAt0 label = Some code) (labels cfg) \<noteq> None then
        (case List.find (\<lambda>target. Target.char target = fromCharCode code) targets of
           Some target \<Rightarrow> (Some Broke, jumpTargetR target r)
         | None \<Rightarrow> (None, r))
      else if code = BS \<or> code = C_H then
        (None, r\<lparr>targetCache := [], input := butlast (input r)\<rparr>)
      else if code = C_W then
        (None, r\<lparr>targetCache := [], input := []\<rparr>)
      else if SPACE \<le> code \<and> code \<le> TILDE then
        (case await w r of
           (ok1, r1) \<Rightarrow>
             if \<not> ok1 then (Some (Threw Rejected), r1)
             else
               (case getTargetR w cfg (input (r1\<lparr>input := input r1 @ nr2char code\<rparr>))
                       (r1\<lparr>input := input r1 @ nr2char code\<rparr>) of
                  (Inl err, r3) \<Rightarrow> (Some (Threw err), r3)
                | (Inr targets', r3) \<Rightarrow>
                    if autoJump cfg \<and> length targets' = 1
                    then (Some Broke, jumpTargetR (targets' ! 0) r3)
                    else (None, r3)))
      else (None, r))"
  unfolding dispatchR_def assms(1) prod.case event.case Let_def
  apply (simp only: not_True_eq_False if_False)
  apply (subst if_not_P [OF assms(2)])
  apply (subst assms(3))
  apply (simp only: option.case)
  done

lemma covered_jumpTargetR [simp]:
  "covered cfg ed0 ids (jumpTargetR t r) = covered cfg ed0 ids r"
  by (simp add: covered_def jumpTargetR_def execute_def)

lemma covered_getTargetR_eq [simp]:
  "covered cfg ed0 ids (snd (getTargetR w cfg' inp r)) = covered cfg ed0 ids r"
  by (simp add: getTargetR_def split_beta await_def)

lemma pending_jumpTargetR [simp]:
  "list_all isCursor (pending (jumpTargetR t r)) = list_all isCursor (pending r)"
  by (simp add: jumpTargetR_def isCursor_def)

lemma dispatchR_cases:
  obtains
    (rejected) "rejects w (awaited r0)"
      "dispatchR w cfg targets ev r0 = (Some (Threw Rejected), r0\<lparr>awaited := Suc (awaited r0)\<rparr>)"
  | (notNumber) "dispatchR w cfg targets ev r0 = (Some (Threw AssertionError), r0\<lparr>awaited := Suc (awaited r0)\<rparr>)"
  | (returned) "dispatchR w cfg targets ev r0 = (Some Returned, r0\<lparr>awaited := Suc (awaited r0)\<rparr>)"
  | (nan) "dispatchR w cfg targets ev r0 = (None, r0\<lparr>awaited := Suc (awaited r0)\<rparr>)"
  | (chain) key code where "ev = Code key"
      "await w r0 = (True, r0\<lparr>awaited := Suc (awaited r0)\<rparr>)"
      "\<not> (key = ENTER \<and> length targets = 0)"
      "(if key = ENTER then charCodeAt0 (Target.char (targets ! 0)) else Some key) = Some code"
proof (cases "rejects w (awaited r0)")
  case True
  then have "dispatchR w cfg targets ev r0 = (Some (Threw Rejected), r0\<lparr>awaited := Suc (awaited r0)\<rparr>)"
    by (simp add: dispatchR_def await_def)
  with True show ?thesis by (rule rejected)
next
  case False
  then have a: "await w r0 = (True, r0\<lparr>awaited := Suc (awaited r0)\<rparr>)"
    by (simp add: await_def)
  show ?thesis
  proof (cases ev)
    case NotNumber
    with a have "dispatchR w cfg targets ev r0 = (Some (Threw AssertionError), r0\<lparr>awaited := Suc (awaited r0)\<rparr>)"
      by (simp add: dispatchR_def)
    then show ?thesis by (rule notNumber)
  next
    case (Code key)
    show ?thesis
    proof (cases "key = ENTER \<and> length targets = 0")
      case True
      with a Code have "dispatchR w cfg targets ev r0 = (Some Returned, r0\<lparr>awaited := Suc (awaited r0)\<rparr>)"
        by (simp add: dispatchR_def)
      then show ?thesis by (rule returned)
    next
      case f: False
      show ?thesis
      proof (cases "if key = ENTER then charCodeAt0 (Target.char (targets ! 0)) else Some key")
        case None
        have "dispatchR w cfg targets (Code key) r0 = (None, r0\<lparr>awaited := Suc (awaited r0)\<rparr>)"
          unfolding dispatchR_def a prod.case event.case Let_def
          apply (simp only: not_True_eq_False if_False)
          apply (subst if_not_P [OF f])
          apply (subst None)
          apply (simp only: option.case)
          done
        with Code show ?thesis using nan by simp
      next
        case (Some code)
        from Code a f Some show ?thesis by (rule chain)
      qed
    qed
  qed
qed

lemma covered_dispatchR:
  assumes "covered cfg ed0 shadeIds r0"
  shows "covered cfg ed0 shadeIds (snd (dispatchR w cfg targets ev r0))"
proof (cases rule: dispatchR_cases [of w r0 cfg targets ev])
  case (chain key code)
  show ?thesis
    unfolding chain(1) dispatchR_chain [OF chain(2-4)]
    using assms
    by (simp add: split_beta await_def split: option.split sum.split)
qed (use assms in simp_all)

lemma pending_dispatchR:
  assumes "list_all isCursor (pending r0)"
  shows "list_all isCursor (pending (snd (dispatchR w cfg targets ev r0)))"
proof (cases rule: dispatchR_cases [of w r0 cfg targets ev])
  case (chain key code)
  show ?thesis
    unfolding chain(1) dispatchR_chain [OF chain(2-4)]
    using assms
    by (simp add: split_beta await_def getTargetR_frame split: option.split sum.split)
qed (use assms in simp_all)

lemma loopR_invariant:
  assumes "covered cfg ed0 shadeIds r" and "list_all isCursor (pending r)"
  shows "covered cfg ed0 shadeIds (snd (loopR w cfg evs r)) \<and>
         list_all isCursor (pending (snd (loopR w cfg evs r)))"
  using assms
proof (induction evs arbitrary: r)
  case Nil
  from covered_renderR [OF Nil(1), of w] Nil(2) show ?case
    by (simp add: split_beta renderR_frame split: sum.splits)
next
  case (Cons ev evs)
  let ?r1 = "snd (renderR w cfg r)"
  have c1: "covered cfg ed0 shadeIds ?r1" using Cons.prems(1) by (rule covered_renderR)
  have p1: "list_all isCursor (pending ?r1)" using Cons.prems(2) by (simp add: renderR_frame)
  show ?case
  proof (cases "fst (renderR w cfg r)")
    case (Inl err)
    with c1 p1 show ?thesis by (simp add: split_beta)
  next
    case (Inr targets)
    let ?r2 = "snd (dispatchR w cfg targets ev ?r1)"
    have c2: "covered cfg ed0 shadeIds ?r2" using c1 by (rule covered_dispatchR)
    have p2: "list_all isCursor (pending ?r2)" using p1 by (rule pending_dispatchR)
    show ?thesis
    proof (cases "fst (dispatchR w cfg targets ev ?r1)")
      case None
      with Inr Cons.IH [OF c2 p2] show ?thesis by (simp add: split_beta)
    next
      case (Some ex)
      with Inr c2 p2 show ?thesis by (simp add: split_beta)
    qed
  qed
qed

subsection \<open>Shading and the final clean-up\<close>

lemma shade_editor:
  "shade ls ed = (ids, ed') \<Longrightarrow>
     extmarks ed' = extmarks ed \<and> props ed' = props ed \<and> popups ed' = popups ed \<and>
     matches ed' = matches ed \<union> set ids \<and> nextId ed \<le> nextId ed' \<and>
     (\<forall>i\<in>set ids. nextId ed \<le> i \<and> i < nextId ed')"
proof (induction ls arbitrary: ed ids ed')
  case Nil
  then show ?case by simp
next
  case (Cons l ls)
  obtain ids1 ed1 where s1: "shade ls (snd (matchaddpos ''FuzzyMotionShade'' [l] 10 ed)) = (ids1, ed1)"
    by (cases "shade ls (snd (matchaddpos ''FuzzyMotionShade'' [l] 10 ed))") auto
  with Cons.prems have ids: "ids = nextId ed # ids1" and ed': "ed' = ed1"
    by (auto simp: Let_def matchaddpos_def split: prod.splits)
  from Cons.IH [OF s1] show ?case
    unfolding ids ed' by (auto simp: matchaddpos_def)
qed

lemma covered_initial:
  assumes "idle st" and "wellFormed st" and "shade ls (editor st) = (ids, ed)"
  shows "covered cfg (editor st) ids (startRun (st\<lparr>targetCache := [], editor := ed, input := []\<rparr>))"
proof -
  note e = shade_editor [OF assms(3)]
  have b: "\<forall>i \<in> extmarks (editor st) \<union> popups (editor st) \<union> matches (editor st). i < nextId (editor st)"
    and p: "\<forall>i \<in> props (editor st). i \<le> textPropId st"
    using assms(2) by (simp_all add: wellFormed_def)
  have d: "set ids \<inter> matches (editor st) = {}"
  proof -
    have "i \<notin> matches (editor st)" if "i \<in> set ids" for i
    proof
      assume "i \<in> matches (editor st)"
      with b have "i < nextId (editor st)" by blast
      moreover from e that have "nextId (editor st) \<le> i" by blast
      ultimately show False by simp
    qed
    then show ?thesis by blast
  qed
  have u: "\<forall>i \<in> extmarks (editor st) \<union> popups (editor st) \<union> matches (editor st). i < nextId ed"
  proof
    fix i assume "i \<in> extmarks (editor st) \<union> popups (editor st) \<union> matches (editor st)"
    with b have "i < nextId (editor st)" by blast
    with e show "i < nextId ed" by simp
  qed
  show ?thesis
    unfolding covered_def using assms(1) e p d u by (simp add: idle_def startRun_def)
qed

lemma covered_stateOf [simp]: "covered cfg ed0 ids (stateOf r) = covered cfg ed0 ids r"
  by (simp add: covered_def stateOf_def)

lemma covered_console_error [simp]:
  "covered cfg ed0 ids (st\<lparr>editor := console_error err (editor st)\<rparr>) = covered cfg ed0 ids st"
  by (simp add: covered_def console_error_def)

lemma unmountTargets_calls: "\<exists>cs. calls (editor (unmountTargets cfg st)) = calls (editor st) @ cs"
  by (cases "host cfg")
     (simp_all add: unmountTargets_def Let_def foldl_del_extmark foldl_prop_remove foldl_popup_close
        foldl_matchdelete)

lemma cleanup_editor:
  assumes "covered cfg ed0 ids st"
  shows "extmarks (editor (cleanup cfg ids st)) = extmarks ed0"
    and "props (editor (cleanup cfg ids st)) = props ed0"
    and "popups (editor (cleanup cfg ids st)) = popups ed0"
    and "matches (editor (cleanup cfg ids st)) = matches ed0"
    and "idle (cleanup cfg ids st)"
proof -
  let ?st1 = "st\<lparr>editor := foldl matchdelete (editor st) ids\<rparr>"
  have f: "markIds (unmountTargets cfg ?st1) = []" "targetMatchIds (unmountTargets cfg ?st1) = []"
    "popupIds (unmountTargets cfg ?st1) = []"
    using assms by (auto simp: unmountTargets_fields covered_def)
  have c: "extmarks (editor (cleanup cfg ids st)) = extmarks (editor (unmountTargets cfg ?st1))"
    "props (editor (cleanup cfg ids st)) = props (editor (unmountTargets cfg ?st1))"
    "popups (editor (cleanup cfg ids st)) = popups (editor (unmountTargets cfg ?st1))"
    "matches (editor (cleanup cfg ids st)) = matches (editor (unmountTargets cfg ?st1))"
    by (simp_all add: cleanup_def Let_def execute_def)
  show "extmarks (editor (cleanup cfg ids st)) = extmarks ed0"
    unfolding c unmountTargets_editor using assms
    by (auto simp: covered_def foldl_matchdelete)
  show "props (editor (cleanup cfg ids st)) = props ed0"
    unfolding c unmountTargets_editor using assms
    by (auto simp: covered_def foldl_matchdelete)
  show "popups (editor (cleanup cfg ids st)) = popups ed0"
    unfolding c unmountTargets_editor using assms
    by (auto simp: covered_def foldl_matchdelete)
  show "matches (editor (cleanup cfg ids st)) = matches ed0"
    unfolding c unmountTargets_editor using assms
    by (auto simp: covered_def foldl_matchdelete)
  from f show "idle (cleanup cfg ids st)"
    by (simp add: cleanup_def Let_def idle_def)
qed

lemma cleanup_calls:
  "\<exists>cs. calls (editor (cleanup cfg ids st)) =
          calls (editor st) @ cs @
            [Execute (''echo '' @ [CHR 0x27, CHR 0x27]),
             Execute (case host cfg of Nvim \<Rightarrow> ''redraw'' | Vim \<Rightarrow> ''redraw!'')]"
proof -
  let ?st1 = "st\<lparr>editor := foldl matchdelete (editor st) ids\<rparr>"
  obtain cs where "calls (editor (unmountTargets cfg ?st1)) = calls (editor ?st1) @ cs"
    using unmountTargets_calls by blast
  then have "calls (editor (cleanup cfg ids st)) =
      calls (editor st) @ (map MatchDelete ids @ cs) @
        [Execute (''echo '' @ [CHR 0x27, CHR 0x27]),
         Execute (case host cfg of Nvim \<Rightarrow> ''redraw'' | Vim \<Rightarrow> ''redraw!'')]"
    by (simp add: cleanup_def Let_def execute_def echoEmpty_def foldl_matchdelete)
  then show ?thesis by blast
qed

lemma land_tail:
  assumes "list_all isCursor late"
  shows "\<exists>before mid after.
           land k late (cs @ [e, d]) = before @ [e] @ mid @ [d] @ after \<and> list_all isCursor (mid @ after)"
proof -
  have r: "land k late (cs @ [e, d]) = before @ [e] @ mid @ [d] @ after \<Longrightarrow>
           list_all isCursor (mid @ after) \<Longrightarrow> ?thesis" for before mid after
    by blast
  show ?thesis
  proof (cases k)
    case None
    then have "land k late (cs @ [e, d]) = cs @ [e] @ [] @ [d] @ []" by (simp add: land_def)
    then show ?thesis by (rule r) simp
  next
    case (Some n)
    consider "n \<le> length cs" | "n = Suc (length cs)" | "Suc (Suc (length cs)) \<le> n"
      by linarith
    then show ?thesis
    proof cases
      case 1
      with Some have "land k late (cs @ [e, d]) = (take n cs @ late @ drop n cs) @ [e] @ [] @ [d] @ []"
        by (simp add: land_def)
      then show ?thesis by (rule r) simp
    next
      case 2
      with Some have "land k late (cs @ [e, d]) = cs @ [e] @ late @ [d] @ []"
        by (simp add: land_def)
      then show ?thesis by (rule r) (simp add: assms)
    next
      case 3
      with Some have "land k late (cs @ [e, d]) = cs @ [e] @ [] @ [d] @ late"
        by (simp add: land_def)
      then show ?thesis by (rule r) (simp add: assms)
    qed
  qed
qed

lemma dispatcherExecute_Some:
  assumes "fst (dispatcherExecute w cfg evs st0) = Some ex"
  obtains ids ed r2 st3 where
    "shade (lineNumbers cfg) (editor st0) = (ids, ed)"
    "loopR w cfg evs (startRun (st0\<lparr>targetCache := [], editor := ed, input := []\<rparr>)) = (Some ex, r2)"
    "st3 = (case ex of Threw err \<Rightarrow> (stateOf r2)\<lparr>editor := console_error err (editor r2)\<rparr>
                     | Broke \<Rightarrow> stateOf r2 | Returned \<Rightarrow> stateOf r2)"
    "snd (dispatcherExecute w cfg evs st0) =
       (cleanup cfg ids st3)\<lparr>editor := (editor (cleanup cfg ids st3))
          \<lparr>calls := calls (editor st3) @
              land (landing w) (pending r2)
                (drop (length (calls (editor st3))) (calls (editor (cleanup cfg ids st3))))\<rparr>\<rparr>"
proof -
  obtain ids ed where s: "shade (lineNumbers cfg) (editor st0) = (ids, ed)"
    by (cases "shade (lineNumbers cfg) (editor st0)") auto
  obtain x r2 where l: "loopR w cfg evs (startRun (st0\<lparr>targetCache := [], editor := ed, input := []\<rparr>)) = (x, r2)"
    by (cases "loopR w cfg evs (startRun (st0\<lparr>targetCache := [], editor := ed, input := []\<rparr>))") auto
  from assms s l have x: "x = Some ex"
    by (cases x) (simp_all add: dispatcherExecute_def Let_def)
  show ?thesis
    apply (rule that [OF s l [unfolded x] refl])
    using s l x apply (simp add: dispatcherExecute_def Let_def)
    done
qed

lemma dispatcherExecute_fst:
  "fst (dispatcherExecute w cfg evs st) =
     fst (loopR w cfg evs
            (startRun (st\<lparr>targetCache := [], editor := snd (shade (lineNumbers cfg) (editor st)),
                          input := []\<rparr>)))"
  by (simp add: dispatcherExecute_def Let_def split: prod.splits option.splits)

text \<open>The requests of the \<^verbatim>\<open>finally\<close> block, in the order in which it sends them.\<close>

lemma cleanup_calls_exact:
  "calls (editor (cleanup cfg ids st)) =
     calls (editor st) @ map MatchDelete ids @
       (case host cfg of
          Nvim \<Rightarrow> map (NvimBufDelExtmark (namespace cfg)) (markIds st)
        | Vim \<Rightarrow> map PropRemove (markIds st) @ map PopupClose (popupIds st)) @
       map MatchDelete (targetMatchIds st) @
       [Execute (''echo '' @ [CHR 0x27, CHR 0x27]),
        Execute (case host cfg of Nvim \<Rightarrow> ''redraw'' | Vim \<Rightarrow> ''redraw!'')]"
  by (cases "host cfg")
     (simp_all add: cleanup_def unmountTargets_def Let_def execute_def echoEmpty_def
        foldl_matchdelete foldl_del_extmark foldl_prop_remove foldl_popup_close)

text \<open>
  The record of calls of a session that ends by \<^verbatim>\<open>break\<close>: the calls of the loop,
  then the requests of the \<^verbatim>\<open>finally\<close> block with the pending request of the jump
  in between.
\<close>

lemma dispatcherExecute_calls_Broke:
  assumes "fst (dispatcherExecute w cfg evs st0) = Some Broke"
  shows "calls (editor (snd (dispatcherExecute w cfg evs st0))) =
     (let ids = fst (shade (lineNumbers cfg) (editor st0));
          r2 = snd (loopR w cfg evs
                 (startRun (st0\<lparr>targetCache := [],
                              editor := snd (shade (lineNumbers cfg) (editor st0)), input := []\<rparr>)))
      in calls (editor r2) @
         land (landing w) (pending r2)
           (map MatchDelete ids @
            (case host cfg of
               Nvim \<Rightarrow> map (NvimBufDelExtmark (namespace cfg)) (markIds r2)
             | Vim \<Rightarrow> map PropRemove (markIds r2) @ map PopupClose (popupIds r2)) @
            map MatchDelete (targetMatchIds r2) @
            [Execute (''echo '' @ [CHR 0x27, CHR 0x27]),
             Execute (case host cfg of Nvim \<Rightarrow> ''redraw'' | Vim \<Rightarrow> ''redraw!'')]))"
proof -
  from assms obtain ids ed r2 st3 where
    s: "shade (lineNumbers cfg) (editor st0) = (ids, ed)" and
    l: "loopR w cfg evs (startRun (st0\<lparr>targetCache := [], editor := ed, input := []\<rparr>)) = (Some Broke, r2)" and
    st3: "st3 = (case Broke of Threw err \<Rightarrow> (stateOf r2)\<lparr>editor := console_error err (editor r2)\<rparr>
                     | Broke \<Rightarrow> stateOf r2 | Returned \<Rightarrow> stateOf r2)" and
    d: "snd (dispatcherExecute w cfg evs st0) =
       (cleanup cfg ids st3)\<lparr>editor := (editor (cleanup cfg ids st3))
          \<lparr>calls := calls (editor st3) @
              land (landing w) (pending r2)
                (drop (length (calls (editor st3))) (calls (editor (cleanup cfg ids st3))))\<rparr>\<rparr>"
    by (rule dispatcherExecute_Some)
  have st3': "st3 = stateOf r2" using st3 by simp
  show ?thesis
    unfolding d by (cases "host cfg") (simp_all add: s l cleanup_calls_exact st3' stateOf_def)
qed

section \<open>The claims about the target computation\<close>






text \<open>
  Claim C3, as amended (aggregation and reduction).  Let \<open>fs\<close> be the output of
  the fzf matcher when the configured list contains \<^verbatim>\<open>"fzf"\<close> and empty
  otherwise, and \<open>ks\<close> likewise for kensaku.  For a non-empty input the
  aggregated list is \<open>fs @ ks\<close>, fzf first whatever the order of the names in the
  configured list, reduced first-occurrence-wins: an entry is kept exactly when
  no entry at a smaller index of \<open>fs @ ks\<close> has the same effective match position
  \<^verbatim>\<open>(pos.line, pos.col + start)\<close>.  The kept entries stay in the order of the
  concatenation, their positions are pairwise distinct, every position of the
  concatenation is still present, and \<^verbatim>\<open>getTarget\<close> labels exactly this list.
\<close>

theorem aggregate_fixed_order_first_wins:
  assumes "''fzf'' \<in> set (matchers e) \<Longrightarrow> fzf e inp ws = Inr fs"
      and "''fzf'' \<notin> set (matchers e) \<Longrightarrow> fs = []"
      and "''kensaku'' \<in> set (matchers e) \<Longrightarrow> kensaku e inp ws = Inr ks"
      and "''kensaku'' \<notin> set (matchers e) \<Longrightarrow> ks = []"
      and "inp \<noteq> []"
  shows "aggregate e inp ws = Inr (firstWins (fs @ ks)) \<and>
         getTarget e tc ws inp lbls
           = (Inr (labelTargets tc lbls (firstWins (fs @ ks))), labelTargets tc lbls (firstWins (fs @ ks))) \<and>
         subseq (firstWins (fs @ ks)) (fs @ ks) \<and>
         distinct (map effPosR (firstWins (fs @ ks))) \<and>
         effPosR ` set (firstWins (fs @ ks)) = effPosR ` set (fs @ ks)"
proof -
  have a: "aggregate e inp ws = Inr (firstWins (fs @ ks))"
    using aggregate_eq [OF assms(1-4)] by (simp add: dedup_firstWins)
  have g: "getTarget e tc ws inp lbls
           = (Inr (labelTargets tc lbls (firstWins (fs @ ks))), labelTargets tc lbls (firstWins (fs @ ks)))"
    using a assms(5) by (simp add: getTarget_def Let_def)
  have s: "subseq (firstWins (fs @ ks)) (fs @ ks)"
    using dedup_subseq [of "fs @ ks"] by (simp add: dedup_firstWins)
  have d: "distinct (map effPosR (firstWins (fs @ ks)))"
    using dedup_distinct [of "fs @ ks"] by (simp add: dedup_firstWins)
  have k: "effPosR ` set (firstWins (fs @ ks)) = effPosR ` set (fs @ ks)"
    using dedup_keys [of "fs @ ks"] by (simp add: dedup_firstWins)
  from a g s d k show ?thesis by blast
qed

text \<open>
  An instance with both matchers: fzf finds foo at line 1, column 2; kensaku
  finds xfoo at line 1, column 1 with offset 1, the same effective position,
  and afa.  The entry of fzf is kept, the one of kensaku for xfoo is dropped.
\<close>

theorem aggregate_fixed_order_first_wins_witness:
  "fzf kensakuFirst ''f'' overlapWords = Inr [matched ''foo'' 1 2 0 1] \<and>
   kensaku kensakuFirst ''f'' overlapWords = Inr [matched ''xfoo'' 1 1 1 1, matched ''afa'' 2 1 1 1] \<and>
   aggregate kensakuFirst ''f'' overlapWords
     = Inr (firstWins ([matched ''foo'' 1 2 0 1] @ [matched ''xfoo'' 1 1 1 1, matched ''afa'' 2 1 1 1])) \<and>
   firstWins ([matched ''foo'' 1 2 0 1] @ [matched ''xfoo'' 1 1 1 1, matched ''afa'' 2 1 1 1])
     = [matched ''foo'' 1 2 0 1, matched ''afa'' 2 1 1 1]"
proof -
  have f: "fzf kensakuFirst ''f'' overlapWords = Inr [matched ''foo'' 1 2 0 1]"
    by code_simp
  have k: "kensaku kensakuFirst ''f'' overlapWords = Inr [matched ''xfoo'' 1 1 1 1, matched ''afa'' 2 1 1 1]"
    by code_simp
  have nf: "''fzf'' \<notin> set (matchers kensakuFirst) \<Longrightarrow> [matched ''foo'' 1 2 0 1] = []"
    by (simp add: kensakuFirst_def)
  have nk: "''kensaku'' \<notin> set (matchers kensakuFirst) \<Longrightarrow> [matched ''xfoo'' 1 1 1 1, matched ''afa'' 2 1 1 1] = []"
    by (simp add: kensakuFirst_def)
  have i: "''f'' \<noteq> []" by simp
  have v: "firstWins ([matched ''foo'' 1 2 0 1] @ [matched ''xfoo'' 1 1 1 1, matched ''afa'' 2 1 1 1])
     = [matched ''foo'' 1 2 0 1, matched ''afa'' 2 1 1 1]"
    by code_simp
  from aggregate_fixed_order_first_wins [OF f nf k nk i] f k v show ?thesis by simp
qed

text \<open>
  Claim C3 as stated, with the concatenation in the order of the configured
  list, fails: with the list \<^verbatim>\<open>["kensaku", "fzf"]\<close> the code still puts the fzf
  results first, so the entry of fzf for foo survives, where the configured
  order would keep the entry of kensaku for xfoo.
\<close>

theorem aggregate_config_order_counterexample:
  "matchers kensakuFirst = [''kensaku'', ''fzf''] \<and>
   aggregate kensakuFirst ''f'' overlapWords
     = Inr [matched ''foo'' 1 2 0 1, matched ''afa'' 2 1 1 1] \<and>
   spec_aggregate kensakuFirst ''f'' overlapWords
     = Inr [matched ''xfoo'' 1 1 1 1, matched ''afa'' 2 1 1 1] \<and>
   aggregate kensakuFirst ''f'' overlapWords \<noteq> spec_aggregate kensakuFirst ''f'' overlapWords"
proof -
  have m: "matchers kensakuFirst = [''kensaku'', ''fzf'']" by (simp add: kensakuFirst_def)
  have a: "aggregate kensakuFirst ''f'' overlapWords
     = Inr [matched ''foo'' 1 2 0 1, matched ''afa'' 2 1 1 1]" by code_simp
  have s: "spec_aggregate kensakuFirst ''f'' overlapWords
     = Inr [matched ''xfoo'' 1 1 1 1, matched ''afa'' 2 1 1 1]" by code_simp
  have "matched ''foo'' 1 2 0 1 \<noteq> matched ''xfoo'' 1 1 1 1" by (simp add: matched_def mkWord_def)
  with m a s show ?thesis by simp
qed

text \<open>
  Claim C4 (empty-input short-circuit).  For every word list, every matcher
  configuration (including matchers that throw on every input), every alphabet
  and every cache, \<^verbatim>\<open>getTarget\<close> on the empty input returns the empty target
  list and leaves the cache as it is; the matchers have no part in the result.
\<close>

theorem empty_input_short_circuit:
  "getTarget e tc ws [] lbls = (Inr [], tc)"
  by (simp add: getTarget_def)

text \<open>
  Claim C10 (uniqueness).  In every cache that calls of \<^verbatim>\<open>getTarget\<close> reach from
  the empty cache, and in every target list that \<^verbatim>\<open>getTarget\<close> returns from such
  a cache, the labels are pairwise distinct and the effective match positions
  \<^verbatim>\<open>(pos.line, pos.col + start)\<close> are pairwise distinct; so at most one target of
  the list carries a given label.
\<close>

theorem uniqueness_invariant:
  assumes "getTarget e (runCalls e lbls [] cs) ws inp lbls = (Inr out, tc')"
  shows "distinct (map Target.char (runCalls e lbls [] cs)) \<and>
         distinct (map effPosT (runCalls e lbls [] cs)) \<and>
         distinct (map Target.char out) \<and> distinct (map effPosT out) \<and>
         (\<forall>k. length (filter (\<lambda>t. Target.char t = k) out) \<le> 1)"
proof -
  have ok: "cacheOk lbls (runCalls e lbls [] cs)"
    by (intro cacheOk_runCalls cacheOk_empty)
  then have c: "distinct (map Target.char (runCalls e lbls [] cs))"
    and p: "distinct (map effPosT (runCalls e lbls [] cs))"
    by (simp_all add: cacheOk_def)
  have oc: "distinct (map Target.char out)"
    using assms c by (rule getTarget_distinct_chars)
  have op: "distinct (map effPosT out)"
    using assms by (rule getTarget_distinct_effPos)
  from oc have "\<forall>k. length (filter (\<lambda>t. Target.char t = k) out) \<le> 1"
    by (simp add: filter_distinct_le1)
  with c p oc op show ?thesis by blast
qed

text \<open>An instance: the cache after ``f'' and the output for ``fo'', with the labels a and s.\<close>

theorem uniqueness_invariant_witness:
  "getTarget fzfOnly (runCalls fzfOnly (Some [''a'', ''s'']) [] [(fWords, ''f'')]) fWords ''fo''
       (Some [''a'', ''s''])
     = (Inr [labelled ''foo'' 2 1 0 2 ''s''], [labelled ''foo'' 2 1 0 2 ''s'']) \<and>
   runCalls fzfOnly (Some [''a'', ''s'']) [] [(fWords, ''f'')]
     = [labelled ''far'' 1 1 0 1 ''a'', labelled ''foo'' 2 1 0 1 ''s''] \<and>
   distinct (map Target.char [labelled ''far'' 1 1 0 1 ''a'', labelled ''foo'' 2 1 0 1 ''s'']) \<and>
   distinct (map effPosT [labelled ''far'' 1 1 0 1 ''a'', labelled ''foo'' 2 1 0 1 ''s'']) \<and>
   length (filter (\<lambda>t. Target.char t = ''s'') [labelled ''foo'' 2 1 0 2 ''s'']) \<le> 1"
proof -
  have g: "getTarget fzfOnly (runCalls fzfOnly (Some [''a'', ''s'']) [] [(fWords, ''f'')]) fWords ''fo''
       (Some [''a'', ''s''])
     = (Inr [labelled ''foo'' 2 1 0 2 ''s''], [labelled ''foo'' 2 1 0 2 ''s''])"
    by code_simp
  have r: "runCalls fzfOnly (Some [''a'', ''s'']) [] [(fWords, ''f'')]
     = [labelled ''far'' 1 1 0 1 ''a'', labelled ''foo'' 2 1 0 1 ''s'']"
    by code_simp
  from uniqueness_invariant [OF g] g r show ?thesis by simp
qed

section \<open>The claims about the interactive session\<close>

text \<open>
  In the theorems below \<open>st0\<close> is the state at the top of a pass through the loop,
  with the current input \<open>input st0\<close>; the first half of the pass has rendered
  without a thrown value, giving the current target list \<open>targets\<close> and the state
  \<open>st\<close> in which the key is read.
\<close>

text \<open>
  Claim C5, as amended (auto-jump).  For every key code from 32 to 126 that is
  not the first character of a label of the alphabet, the decoded character is
  appended to the input and the targets are recomputed at once, from the
  current cache.  If the auto-jump flag is set and the recomputation returns
  exactly one target, \<^verbatim>\<open>jumpTarget\<close> is called on it (the calls
  \<^verbatim>\<open>normal! m`\<close> and \<^verbatim>\<open>cursor\<close> at the target) and the loop is left, with nothing
  rendered after the key; otherwise the loop goes on to the next pass with the
  longer input and the new cache.  (The recomputation is assumed not to throw.)
\<close>

theorem printable_key_auto_jump:
  assumes "render cfg st0 = (Inr targets, st)"
      and "32 \<le> key" and "key \<le> 126"
      and "\<forall>label\<in>set (labels cfg). charCodeAt0 label \<noteq> Some key"
      and "getTarget (matcherEnv cfg) (targetCache st) (words cfg) (input st0 @ [char_of key])
             (Some (labels cfg)) = (Inr targets', cache')"
  shows "input st = input st0 \<and>
         dispatch cfg targets (Code key) st =
           (if autoJump cfg \<and> length targets' = 1
            then (Some Broke,
                  st\<lparr>input := input st0 @ [char_of key], targetCache := cache',
                     editor := jumpTarget (targets' ! 0) (editor st)\<rparr>)
            else (None, st\<lparr>input := input st0 @ [char_of key], targetCache := cache'\<rparr>)) \<and>
         loop cfg (Code key # evs) st0 =
           (if autoJump cfg \<and> length targets' = 1
            then (Some Broke,
                  st\<lparr>input := input st0 @ [char_of key], targetCache := cache',
                     editor := jumpTarget (targets' ! 0) (editor st)\<rparr>)
            else loop cfg evs (st\<lparr>input := input st0 @ [char_of key], targetCache := cache'\<rparr>)) \<and>
         calls (jumpTarget (targets' ! 0) (editor st)) =
           calls (editor st) @
             [Execute ''normal! m`'',
              Cursor (line (Target.pos (targets' ! 0)))
                     (col (Target.pos (targets' ! 0)) + Target.start (targets' ! 0))]"
proof -
  have i: "input st = input st0" using assms(1) by (rule rendered_input)
  have k: "\<not> (key = ENTER \<and> length targets = 0)"
    "(if key = ENTER then charCodeAt0 (Target.char (targets ! 0)) else Some key) = Some key"
    using assms(2) by (simp_all add: ENTER_def)
  have n: "List.find (\<lambda>label. charCodeAt0 label = Some key) (labels cfg) = None"
    using assms(4) by (simp add: find_None_iff)
  have d: "dispatch cfg targets (Code key) st =
           (if autoJump cfg \<and> length targets' = 1
            then (Some Broke,
                  st\<lparr>input := input st0 @ [char_of key], targetCache := cache',
                     editor := jumpTarget (targets' ! 0) (editor st)\<rparr>)
            else (None, st\<lparr>input := input st0 @ [char_of key], targetCache := cache'\<rparr>))"
    unfolding dispatch_chain [OF k]
    using assms(2,3,5) n i
    by (simp add: ESC_def BS_def C_H_def C_W_def SPACE_def TILDE_def nr2char_def)
  have l: "loop cfg (Code key # evs) st0 =
           (if autoJump cfg \<and> length targets' = 1
            then (Some Broke,
                  st\<lparr>input := input st0 @ [char_of key], targetCache := cache',
                     editor := jumpTarget (targets' ! 0) (editor st)\<rparr>)
            else loop cfg evs (st\<lparr>input := input st0 @ [char_of key], targetCache := cache'\<rparr>))"
    unfolding loop_Cons_rendered [OF assms(1)] d by simp
  from i d l show ?thesis by (simp add: jumpTarget_frame)
qed

text \<open>
  An instance: with the input ``fo'' and auto-jump on, the key x (120) leaves the
  single target fox, and the loop is left with a jump to it.
\<close>

theorem printable_key_auto_jump_witness:
  "render (exampleConfig Nvim True) (freshState\<lparr>input := ''fo''\<rparr>)
     = (Inr [labelled ''foo'' 2 1 0 2 ''a'', labelled ''fob'' 3 1 0 2 ''s'', labelled ''fox'' 4 1 0 2 ''d''],
        snd (render (exampleConfig Nvim True) (freshState\<lparr>input := ''fo''\<rparr>))) \<and>
   (32 :: nat) \<le> 120 \<and> (120 :: nat) \<le> 126 \<and>
   List.find (\<lambda>label. charCodeAt0 label = Some 120) (labels (exampleConfig Nvim True)) = None \<and>
   getTarget (matcherEnv (exampleConfig Nvim True))
       (targetCache (snd (render (exampleConfig Nvim True) (freshState\<lparr>input := ''fo''\<rparr>))))
       (words (exampleConfig Nvim True)) (input (freshState\<lparr>input := ''fo''\<rparr>) @ [char_of (120 :: nat)])
       (Some (labels (exampleConfig Nvim True)))
     = (Inr [labelled ''fox'' 4 1 0 3 ''d''], [labelled ''fox'' 4 1 0 3 ''d'']) \<and>
   loop (exampleConfig Nvim True) [Code 120] (freshState\<lparr>input := ''fo''\<rparr>)
     = (Some Broke,
        (snd (render (exampleConfig Nvim True) (freshState\<lparr>input := ''fo''\<rparr>)))
          \<lparr>input := input (freshState\<lparr>input := ''fo''\<rparr>) @ [char_of (120 :: nat)],
           targetCache := [labelled ''fox'' 4 1 0 3 ''d''],
           editor := jumpTarget ([labelled ''fox'' 4 1 0 3 ''d''] ! 0)
                       (editor (snd (render (exampleConfig Nvim True) (freshState\<lparr>input := ''fo''\<rparr>))))\<rparr>)"
proof -
  have r: "render (exampleConfig Nvim True) (freshState\<lparr>input := ''fo''\<rparr>)
     = (Inr [labelled ''foo'' 2 1 0 2 ''a'', labelled ''fob'' 3 1 0 2 ''s'', labelled ''fox'' 4 1 0 2 ''d''],
        snd (render (exampleConfig Nvim True) (freshState\<lparr>input := ''fo''\<rparr>)))"
    by code_simp
  have b1: "(32 :: nat) \<le> 120" and b2: "(120 :: nat) \<le> 126" by simp_all
  have n: "\<forall>label\<in>set (labels (exampleConfig Nvim True)). charCodeAt0 label \<noteq> Some 120"
    by (simp add: exampleConfig_def charCodeAt0_def)
  have g: "getTarget (matcherEnv (exampleConfig Nvim True))
       (targetCache (snd (render (exampleConfig Nvim True) (freshState\<lparr>input := ''fo''\<rparr>))))
       (words (exampleConfig Nvim True)) (input (freshState\<lparr>input := ''fo''\<rparr>) @ [char_of (120 :: nat)])
       (Some (labels (exampleConfig Nvim True)))
     = (Inr [labelled ''fox'' 4 1 0 3 ''d''], [labelled ''fox'' 4 1 0 3 ''d''])"
  proof -
    have "getTarget (matcherEnv (exampleConfig Nvim True))
       (targetCache (snd (render (exampleConfig Nvim True) (freshState\<lparr>input := ''fo''\<rparr>))))
       (words (exampleConfig Nvim True)) ''fox'' (Some (labels (exampleConfig Nvim True)))
     = (Inr [labelled ''fox'' 4 1 0 3 ''d''], [labelled ''fox'' 4 1 0 3 ''d''])"
      by code_simp
    moreover have "input (freshState\<lparr>input := ''fo''\<rparr>) @ [char_of (120 :: nat)] = ''fox''"
      by (simp add: char_of_x)
    ultimately show ?thesis by simp
  qed
  have a: "autoJump (exampleConfig Nvim True)" by (simp add: exampleConfig_def)
  from printable_key_auto_jump [OF r b1 b2 n g, of "[]"] a r b1 b2 n g
  show ?thesis by (simp add: find_None_iff)
qed

text \<open>
  Claim C5 as stated, for every code from 32 to 126, fails on the code of a
  label: with the labels a, s, d and the input ``fo'', the key a (97) is in the
  printable range, yet it is taken as the label of the target foo: the loop is
  left with a jump to foo and the input is still ``fo''.
\<close>

theorem printable_label_key_counterexample:
  "(32 :: nat) \<le> 97 \<and> (97 :: nat) \<le> 126 \<and>
   fst (render (exampleConfig Nvim False) (freshState\<lparr>input := ''fo''\<rparr>))
     = Inr [labelled ''foo'' 2 1 0 2 ''a'', labelled ''fob'' 3 1 0 2 ''s'', labelled ''fox'' 4 1 0 2 ''d''] \<and>
   loop (exampleConfig Nvim False) [Code 97] (freshState\<lparr>input := ''fo''\<rparr>)
     = (Some Broke,
        (snd (render (exampleConfig Nvim False) (freshState\<lparr>input := ''fo''\<rparr>)))
          \<lparr>editor := jumpTarget (labelled ''foo'' 2 1 0 2 ''a'')
                       (editor (snd (render (exampleConfig Nvim False) (freshState\<lparr>input := ''fo''\<rparr>))))\<rparr>) \<and>
   input (snd (loop (exampleConfig Nvim False) [Code 97] (freshState\<lparr>input := ''fo''\<rparr>))) = ''fo''"
  by code_simp

text \<open>
  Claim C6 (Enter), amended.  On the key code 13: if the current target list is
  empty the loop is left at once, by \<^verbatim>\<open>return\<close>, in the state in which the key was
  read, so without a call of \<^verbatim>\<open>jumpTarget\<close>.  Otherwise the key is handled
  exactly as the key of the first character of the first target's label; and
  when that label is a single character of the alphabet other than Escape
  (27), \<^verbatim>\<open>jumpTarget\<close> is called on the first target and the loop is left.
\<close>

theorem enter_key:
  assumes "render cfg st0 = (Inr targets, st)"
  shows "(targets = [] \<longrightarrow>
            dispatch cfg targets (Code 13) st = (Some Returned, st) \<and>
            loop cfg (Code 13 # evs) st0 = (Some Returned, st)) \<and>
         (\<forall>c cs. targets \<noteq> [] \<and> Target.char (targets ! 0) = c # cs \<longrightarrow>
            dispatch cfg targets (Code 13) st = dispatch cfg targets (Code (of_char c)) st) \<and>
         (\<forall>c. targets \<noteq> [] \<and> Target.char (targets ! 0) = [c] \<and> [c] \<in> set (labels cfg) \<and>
              of_char c \<noteq> (27 :: nat) \<longrightarrow>
            dispatch cfg targets (Code 13) st =
              (Some Broke, st\<lparr>editor := jumpTarget (targets ! 0) (editor st)\<rparr>) \<and>
            loop cfg (Code 13 # evs) st0 =
              (Some Broke, st\<lparr>editor := jumpTarget (targets ! 0) (editor st)\<rparr>) \<and>
            calls (jumpTarget (targets ! 0) (editor st)) =
              calls (editor st) @
                [Execute ''normal! m`'',
                 Cursor (line (Target.pos (targets ! 0)))
                        (col (Target.pos (targets ! 0)) + Target.start (targets ! 0))])"
proof (intro conjI impI allI)
  assume e: "targets = []"
  show d: "dispatch cfg targets (Code 13) st = (Some Returned, st)"
    using e by (simp add: dispatch_def ENTER_def)
  show "loop cfg (Code 13 # evs) st0 = (Some Returned, st)"
    unfolding loop_Cons_rendered [OF assms] d by simp
next
  fix c cs
  assume h: "targets \<noteq> [] \<and> Target.char (targets ! 0) = c # cs"
  have k: "\<not> (13 = ENTER \<and> length targets = 0)"
    "(if 13 = ENTER then charCodeAt0 (Target.char (targets ! 0)) else Some 13) = Some (of_char c)"
    using h by (simp_all add: charCodeAt0_def ENTER_def)
  have k': "\<not> (of_char c = ENTER \<and> length targets = 0)"
    "(if of_char c = ENTER then charCodeAt0 (Target.char (targets ! 0)) else Some (of_char c))
       = Some (of_char c)"
    using h by (simp_all add: charCodeAt0_def)
  show "dispatch cfg targets (Code 13) st = dispatch cfg targets (Code (of_char c)) st"
    unfolding dispatch_chain [OF k] dispatch_chain [OF k'] by (rule refl)
next
  fix c
  assume h: "targets \<noteq> [] \<and> Target.char (targets ! 0) = [c] \<and> [c] \<in> set (labels cfg) \<and>
              of_char c \<noteq> (27 :: nat)"
  have k: "\<not> (13 = ENTER \<and> length targets = 0)"
    "(if 13 = ENTER then charCodeAt0 (Target.char (targets ! 0)) else Some 13) = Some (of_char c)"
    using h by (simp_all add: charCodeAt0_def ENTER_def)
  have lbl: "List.find (\<lambda>label. charCodeAt0 label = Some (of_char c)) (labels cfg) \<noteq> None"
    unfolding find_label_iff using h by (auto simp: charCodeAt0_def intro!: bexI [of _ "[c]"])
  obtain t ts where ts: "targets = t # ts" using h by (cases targets) auto
  with h have "Target.char t = [c]" by simp
  with ts have f: "List.find (\<lambda>target. Target.char target = fromCharCode (of_char c)) targets
      = Some (targets ! 0)"
    by (simp add: fromCharCode_def)
  show d: "dispatch cfg targets (Code 13) st =
      (Some Broke, st\<lparr>editor := jumpTarget (targets ! 0) (editor st)\<rparr>)"
    unfolding dispatch_chain [OF k] using h lbl f by (simp add: ESC_def)
  show "loop cfg (Code 13 # evs) st0 =
              (Some Broke, st\<lparr>editor := jumpTarget (targets ! 0) (editor st)\<rparr>)"
    unfolding loop_Cons_rendered [OF assms] d by simp
  show "calls (jumpTarget (targets ! 0) (editor st)) =
              calls (editor st) @
                [Execute ''normal! m`'',
                 Cursor (line (Target.pos (targets ! 0)))
                        (col (Target.pos (targets ! 0)) + Target.start (targets ! 0))]"
    by (simp add: jumpTarget_frame)
qed

text \<open>
  Two instances: Enter with the empty input (no targets) returns; Enter with
  the input ``fo'' jumps to the first target, foo.
\<close>

theorem enter_key_witness:
  "render (exampleConfig Nvim True) freshState
     = (Inr [], snd (render (exampleConfig Nvim True) freshState)) \<and>
   loop (exampleConfig Nvim True) [Code 13] freshState
     = (Some Returned, snd (render (exampleConfig Nvim True) freshState)) \<and>
   render (exampleConfig Nvim True) (freshState\<lparr>input := ''fo''\<rparr>)
     = (Inr [labelled ''foo'' 2 1 0 2 ''a'', labelled ''fob'' 3 1 0 2 ''s'', labelled ''fox'' 4 1 0 2 ''d''],
        snd (render (exampleConfig Nvim True) (freshState\<lparr>input := ''fo''\<rparr>))) \<and>
   loop (exampleConfig Nvim True) [Code 13] (freshState\<lparr>input := ''fo''\<rparr>)
     = (Some Broke,
        (snd (render (exampleConfig Nvim True) (freshState\<lparr>input := ''fo''\<rparr>)))
          \<lparr>editor := jumpTarget (labelled ''foo'' 2 1 0 2 ''a'')
                       (editor (snd (render (exampleConfig Nvim True) (freshState\<lparr>input := ''fo''\<rparr>))))\<rparr>)"
proof -
  have r0: "render (exampleConfig Nvim True) freshState
     = (Inr [], snd (render (exampleConfig Nvim True) freshState))"
    by code_simp
  have r: "render (exampleConfig Nvim True) (freshState\<lparr>input := ''fo''\<rparr>)
     = (Inr [labelled ''foo'' 2 1 0 2 ''a'', labelled ''fob'' 3 1 0 2 ''s'', labelled ''fox'' 4 1 0 2 ''d''],
        snd (render (exampleConfig Nvim True) (freshState\<lparr>input := ''fo''\<rparr>)))"
    by code_simp
  have h: "[labelled ''foo'' 2 1 0 2 ''a'', labelled ''fob'' 3 1 0 2 ''s'', labelled ''fox'' 4 1 0 2 ''d''] \<noteq> [] \<and>
     Target.char ([labelled ''foo'' 2 1 0 2 ''a'', labelled ''fob'' 3 1 0 2 ''s'', labelled ''fox'' 4 1 0 2 ''d''] ! 0) = [CHR ''a''] \<and>
     [CHR ''a''] \<in> set (labels (exampleConfig Nvim True)) \<and> of_char CHR ''a'' \<noteq> (27 :: nat)"
    by (simp add: labelled_def exampleConfig_def)
  from enter_key [OF r0, of "[]"]
  have c0: "loop (exampleConfig Nvim True) [Code 13] freshState
     = (Some Returned, snd (render (exampleConfig Nvim True) freshState))"
    by simp
  from enter_key [OF r, of "[]"] h
  have c: "loop (exampleConfig Nvim True) [Code 13] (freshState\<lparr>input := ''fo''\<rparr>)
     = (Some Broke,
        (snd (render (exampleConfig Nvim True) (freshState\<lparr>input := ''fo''\<rparr>)))
          \<lparr>editor := jumpTarget ([labelled ''foo'' 2 1 0 2 ''a'', labelled ''fob'' 3 1 0 2 ''s'', labelled ''fox'' 4 1 0 2 ''d''] ! 0)
                       (editor (snd (render (exampleConfig Nvim True) (freshState\<lparr>input := ''fo''\<rparr>))))\<rparr>)"
    by blast
  from r0 c0 r c show ?thesis by simp
qed

text \<open>
  Claim C6 as stated, for every label of the first target, fails on a label of
  two characters: with the labels ab, c and the input ``fo'' the first target,
  foo, has the label ab.  Enter is taken as the key a (97), which starts a
  label but is the label of no target: \<^verbatim>\<open>jumpTarget\<close> is not called and the loop
  goes on.
\<close>

theorem enter_long_label_counterexample:
  "render ((exampleConfig Nvim False)\<lparr>labels := [''ab'', ''c'']\<rparr>) (freshState\<lparr>input := ''fo''\<rparr>)
     = (Inr [labelled ''foo'' 2 1 0 2 ''ab'', labelled ''fob'' 3 1 0 2 ''c''],
        snd (render ((exampleConfig Nvim False)\<lparr>labels := [''ab'', ''c'']\<rparr>)
               (freshState\<lparr>input := ''fo''\<rparr>))) \<and>
   dispatch ((exampleConfig Nvim False)\<lparr>labels := [''ab'', ''c'']\<rparr>)
       [labelled ''foo'' 2 1 0 2 ''ab'', labelled ''fob'' 3 1 0 2 ''c''] (Code 13)
       (snd (render ((exampleConfig Nvim False)\<lparr>labels := [''ab'', ''c'']\<rparr>)
               (freshState\<lparr>input := ''fo''\<rparr>)))
     = (None, snd (render ((exampleConfig Nvim False)\<lparr>labels := [''ab'', ''c'']\<rparr>)
                     (freshState\<lparr>input := ''fo''\<rparr>))) \<and>
   loop ((exampleConfig Nvim False)\<lparr>labels := [''ab'', ''c'']\<rparr>) [Code 13]
       (freshState\<lparr>input := ''fo''\<rparr>)
     = loop ((exampleConfig Nvim False)\<lparr>labels := [''ab'', ''c'']\<rparr>) []
         (snd (render ((exampleConfig Nvim False)\<lparr>labels := [''ab'', ''c'']\<rparr>)
                 (freshState\<lparr>input := ''fo''\<rparr>)))"
proof -
  let ?cfg = "(exampleConfig Nvim False)\<lparr>labels := [''ab'', ''c'']\<rparr>"
  have r: "render ?cfg (freshState\<lparr>input := ''fo''\<rparr>)
     = (Inr [labelled ''foo'' 2 1 0 2 ''ab'', labelled ''fob'' 3 1 0 2 ''c''],
        snd (render ?cfg (freshState\<lparr>input := ''fo''\<rparr>)))"
    by code_simp
  have k: "\<not> (13 = ENTER \<and> length [labelled ''foo'' 2 1 0 2 ''ab'', labelled ''fob'' 3 1 0 2 ''c''] = 0)"
    "(if 13 = ENTER
      then charCodeAt0 (Target.char ([labelled ''foo'' 2 1 0 2 ''ab'', labelled ''fob'' 3 1 0 2 ''c''] ! 0))
      else Some 13) = Some 97"
    by (simp_all add: ENTER_def charCodeAt0_def labelled_def)
  have a: "char_of (97 :: nat) = CHR ''a''" by code_simp
  have d: "dispatch ?cfg [labelled ''foo'' 2 1 0 2 ''ab'', labelled ''fob'' 3 1 0 2 ''c''] (Code 13)
             (snd (render ?cfg (freshState\<lparr>input := ''fo''\<rparr>)))
           = (None, snd (render ?cfg (freshState\<lparr>input := ''fo''\<rparr>)))"
    unfolding dispatch_chain [OF k]
    by (simp add: ESC_def exampleConfig_def charCodeAt0_def fromCharCode_def labelled_def a)
  have l: "loop ?cfg [Code 13] (freshState\<lparr>input := ''fo''\<rparr>)
           = loop ?cfg [] (snd (render ?cfg (freshState\<lparr>input := ''fo''\<rparr>)))"
    unfolding loop_Cons_rendered [OF r] d by simp
  from r d l show ?thesis by (intro conjI)
qed

text \<open>
  Claim C7 (backspace and clear-word), amended.  On the key codes 8 and 128 the
  cache is emptied and the input loses its last character (the empty input
  stays empty); on the key code 23 the cache is emptied and the input becomes
  empty.  In both cases the loop goes on, the next pass recomputes from the
  empty cache, and the editor is not called, so there is no jump.  The word
  list is a constant of the session (\<open>words cfg\<close>) and is the same in the next
  pass.  All this holds when no label of the alphabet starts with the control
  code: the test for a label key comes first.
\<close>

theorem backspace_and_clear_word:
  assumes "render cfg st0 = (Inr targets, st)"
      and "key = 8 \<or> key = 128 \<or> key = 23"
      and "\<forall>label\<in>set (labels cfg). charCodeAt0 label \<noteq> Some key"
  shows "dispatch cfg targets (Code key) st =
           (None, st\<lparr>targetCache := [], input := (if key = 23 then [] else butlast (input st0))\<rparr>) \<and>
         loop cfg (Code key # evs) st0 =
           loop cfg evs
             (st\<lparr>targetCache := [], input := (if key = 23 then [] else butlast (input st0))\<rparr>) \<and>
         editor (st\<lparr>targetCache := [], input := (if key = 23 then [] else butlast (input st0))\<rparr>)
           = editor st"
proof -
  have i: "input st = input st0" using assms(1) by (rule rendered_input)
  have k: "\<not> (key = ENTER \<and> length targets = 0)"
    "(if key = ENTER then charCodeAt0 (Target.char (targets ! 0)) else Some key) = Some key"
    using assms(2) by (auto simp: ENTER_def)
  have n: "List.find (\<lambda>label. charCodeAt0 label = Some key) (labels cfg) = None"
    using assms(3) by (simp add: find_None_iff)
  have d: "dispatch cfg targets (Code key) st =
           (None, st\<lparr>targetCache := [], input := (if key = 23 then [] else butlast (input st0))\<rparr>)"
    unfolding dispatch_chain [OF k]
    using assms(2) n i
    by (auto simp: ESC_def BS_def C_H_def C_W_def)
  have l: "loop cfg (Code key # evs) st0 =
           loop cfg evs
             (st\<lparr>targetCache := [], input := (if key = 23 then [] else butlast (input st0))\<rparr>)"
    unfolding loop_Cons_rendered [OF assms(1)] d by simp
  from d l show ?thesis by simp
qed

text \<open>An instance: with the input ``fo'', the key 8 leaves ``f'' and the key 23 leaves the empty input.\<close>

theorem backspace_and_clear_word_witness:
  "render (exampleConfig Nvim True) (freshState\<lparr>input := ''fo''\<rparr>)
     = (Inr [labelled ''foo'' 2 1 0 2 ''a'', labelled ''fob'' 3 1 0 2 ''s'', labelled ''fox'' 4 1 0 2 ''d''],
        snd (render (exampleConfig Nvim True) (freshState\<lparr>input := ''fo''\<rparr>))) \<and>
   List.find (\<lambda>label. charCodeAt0 label = Some 8) (labels (exampleConfig Nvim True)) = None \<and>
   List.find (\<lambda>label. charCodeAt0 label = Some 23) (labels (exampleConfig Nvim True)) = None \<and>
   loop (exampleConfig Nvim True) [Code 8] (freshState\<lparr>input := ''fo''\<rparr>)
     = loop (exampleConfig Nvim True) []
         ((snd (render (exampleConfig Nvim True) (freshState\<lparr>input := ''fo''\<rparr>)))
            \<lparr>targetCache := [], input := ''f''\<rparr>) \<and>
   loop (exampleConfig Nvim True) [Code 23] (freshState\<lparr>input := ''fo''\<rparr>)
     = loop (exampleConfig Nvim True) []
         ((snd (render (exampleConfig Nvim True) (freshState\<lparr>input := ''fo''\<rparr>)))
            \<lparr>targetCache := [], input := []\<rparr>)"
proof -
  have r: "render (exampleConfig Nvim True) (freshState\<lparr>input := ''fo''\<rparr>)
     = (Inr [labelled ''foo'' 2 1 0 2 ''a'', labelled ''fob'' 3 1 0 2 ''s'', labelled ''fox'' 4 1 0 2 ''d''],
        snd (render (exampleConfig Nvim True) (freshState\<lparr>input := ''fo''\<rparr>)))"
    by code_simp
  have n8: "\<forall>label\<in>set (labels (exampleConfig Nvim True)). charCodeAt0 label \<noteq> Some 8"
    by (simp add: exampleConfig_def charCodeAt0_def)
  have n23: "\<forall>label\<in>set (labels (exampleConfig Nvim True)). charCodeAt0 label \<noteq> Some 23"
    by (simp add: exampleConfig_def charCodeAt0_def)
  have k8: "(8::nat) = 8 \<or> (8::nat) = 128 \<or> (8::nat) = 23" by simp
  have k23: "(23::nat) = 8 \<or> (23::nat) = 128 \<or> (23::nat) = 23" by simp
  from backspace_and_clear_word [OF r k8 n8, of "[]"] backspace_and_clear_word [OF r k23 n23, of "[]"]
    r n8 n23
  show ?thesis by (simp add: find_None_iff)
qed

text \<open>
  Claim C7 as stated, for every alphabet, fails when a label starts with the
  control code: with the labels s and the one-character label of code 8, and
  the input ``fox'', the only target is fox with the label s.  The key 8 is
  taken as a label key that no target carries: the cache still holds the
  target and the input is still ``fox''.
\<close>

theorem backspace_label_counterexample:
  "render ((exampleConfig Nvim False)\<lparr>labels := [''s'', [CHR 0x08]]\<rparr>) (freshState\<lparr>input := ''fox''\<rparr>)
     = (Inr [labelled ''fox'' 4 1 0 3 ''s''],
        snd (render ((exampleConfig Nvim False)\<lparr>labels := [''s'', [CHR 0x08]]\<rparr>)
               (freshState\<lparr>input := ''fox''\<rparr>))) \<and>
   dispatch ((exampleConfig Nvim False)\<lparr>labels := [''s'', [CHR 0x08]]\<rparr>)
       [labelled ''fox'' 4 1 0 3 ''s''] (Code 8)
       (snd (render ((exampleConfig Nvim False)\<lparr>labels := [''s'', [CHR 0x08]]\<rparr>)
               (freshState\<lparr>input := ''fox''\<rparr>)))
     = (None, snd (render ((exampleConfig Nvim False)\<lparr>labels := [''s'', [CHR 0x08]]\<rparr>)
                     (freshState\<lparr>input := ''fox''\<rparr>))) \<and>
   targetCache (snd (render ((exampleConfig Nvim False)\<lparr>labels := [''s'', [CHR 0x08]]\<rparr>)
                       (freshState\<lparr>input := ''fox''\<rparr>)))
     = [labelled ''fox'' 4 1 0 3 ''s''] \<and>
   input (snd (render ((exampleConfig Nvim False)\<lparr>labels := [''s'', [CHR 0x08]]\<rparr>)
                 (freshState\<lparr>input := ''fox''\<rparr>))) = ''fox''"
proof -
  let ?cfg = "(exampleConfig Nvim False)\<lparr>labels := [''s'', [CHR 0x08]]\<rparr>"
  have r: "render ?cfg (freshState\<lparr>input := ''fox''\<rparr>)
     = (Inr [labelled ''fox'' 4 1 0 3 ''s''], snd (render ?cfg (freshState\<lparr>input := ''fox''\<rparr>)))"
    by code_simp
  have c: "targetCache (snd (render ?cfg (freshState\<lparr>input := ''fox''\<rparr>)))
             = [labelled ''fox'' 4 1 0 3 ''s'']"
    by code_simp
  have i: "input (snd (render ?cfg (freshState\<lparr>input := ''fox''\<rparr>))) = ''fox''"
    by (simp add: render_input)
  have k: "\<not> (8 = ENTER \<and> length [labelled ''fox'' 4 1 0 3 ''s''] = 0)"
    "(if 8 = ENTER then charCodeAt0 (Target.char ([labelled ''fox'' 4 1 0 3 ''s''] ! 0)) else Some 8)
       = Some 8"
    by (simp_all add: ENTER_def)
  have b: "char_of (8 :: nat) = CHR 0x08" by code_simp
  have d: "dispatch ?cfg [labelled ''fox'' 4 1 0 3 ''s''] (Code 8)
             (snd (render ?cfg (freshState\<lparr>input := ''fox''\<rparr>)))
           = (None, snd (render ?cfg (freshState\<lparr>input := ''fox''\<rparr>)))"
    unfolding dispatch_chain [OF k]
    by (simp add: ESC_def exampleConfig_def charCodeAt0_def fromCharCode_def labelled_def b)
  from r d c i show ?thesis by (intro conjI)
qed

text \<open>
  Claim C8 (unresolvable label key), amended.  If the key code, other than
  Enter (13) and Escape (27), is the first character of some label of the
  alphabet and no target of the current list carries that character as its
  label, the key does nothing: the loop goes on in the same state, with the
  same input (the character is not appended) and without a call of the editor.
\<close>

theorem unresolvable_label_key:
  assumes "render cfg st0 = (Inr targets, st)"
      and "key \<noteq> 13" and "key \<noteq> 27"
      and "\<exists>label\<in>set (labels cfg). charCodeAt0 label = Some key"
      and "\<forall>t\<in>set targets. Target.char t \<noteq> [char_of key]"
  shows "dispatch cfg targets (Code key) st = (None, st) \<and>
         loop cfg (Code key # evs) st0 = loop cfg evs st \<and>
         input st = input st0"
proof -
  have i: "input st = input st0" using assms(1) by (rule rendered_input)
  have k: "\<not> (key = ENTER \<and> length targets = 0)"
    "(if key = ENTER then charCodeAt0 (Target.char (targets ! 0)) else Some key) = Some key"
    using assms(2) by (simp_all add: ENTER_def)
  have lbl: "List.find (\<lambda>label. charCodeAt0 label = Some key) (labels cfg) \<noteq> None"
    unfolding find_label_iff by (rule assms(4))
  have f: "List.find (\<lambda>target. Target.char target = fromCharCode key) targets = None"
    using assms(5) by (simp add: find_None_iff fromCharCode_def)
  have d: "dispatch cfg targets (Code key) st = (None, st)"
    unfolding dispatch_chain [OF k] using assms(3) lbl f by (simp add: ESC_def)
  have l: "loop cfg (Code key # evs) st0 = loop cfg evs st"
    unfolding loop_Cons_rendered [OF assms(1)] d by simp
  from d l i show ?thesis by simp
qed

text \<open>An instance: with the input ``fox'' the only target has the label a; the key s (115) does nothing.\<close>

theorem unresolvable_label_key_witness:
  "render (exampleConfig Nvim True) (freshState\<lparr>input := ''fox''\<rparr>)
     = (Inr [labelled ''fox'' 4 1 0 3 ''a''],
        snd (render (exampleConfig Nvim True) (freshState\<lparr>input := ''fox''\<rparr>))) \<and>
   (115 :: nat) \<noteq> 13 \<and> (115 :: nat) \<noteq> 27 \<and>
   (\<exists>label\<in>set (labels (exampleConfig Nvim True)). charCodeAt0 label = Some 115) \<and>
   List.find (\<lambda>t. Target.char t = [char_of (115 :: nat)]) [labelled ''fox'' 4 1 0 3 ''a''] = None \<and>
   dispatch (exampleConfig Nvim True) [labelled ''fox'' 4 1 0 3 ''a''] (Code 115)
       (snd (render (exampleConfig Nvim True) (freshState\<lparr>input := ''fox''\<rparr>)))
     = (None, snd (render (exampleConfig Nvim True) (freshState\<lparr>input := ''fox''\<rparr>))) \<and>
   input (snd (render (exampleConfig Nvim True) (freshState\<lparr>input := ''fox''\<rparr>))) = ''fox''"
proof -
  have r: "render (exampleConfig Nvim True) (freshState\<lparr>input := ''fox''\<rparr>)
     = (Inr [labelled ''fox'' 4 1 0 3 ''a''],
        snd (render (exampleConfig Nvim True) (freshState\<lparr>input := ''fox''\<rparr>)))"
    by code_simp
  have k1: "(115 :: nat) \<noteq> 13" and k2: "(115 :: nat) \<noteq> 27" by simp_all
  have l: "\<exists>label\<in>set (labels (exampleConfig Nvim True)). charCodeAt0 label = Some 115"
    by (simp add: exampleConfig_def charCodeAt0_def)
  have t: "\<forall>t\<in>set [labelled ''fox'' 4 1 0 3 ''a'']. Target.char t \<noteq> [char_of (115 :: nat)]"
    by (simp add: labelled_def char_of_s)
  from unresolvable_label_key [OF r k1 k2 l t, of "[]"] r k1 k2 l t
  show ?thesis by (simp add: freshState_def find_None_iff)
qed

text \<open>
  Claim C8 as stated, for every key code that starts a label, fails on Enter:
  with the labels s and the one-character label of code 13, and the empty
  input, there is no target, so no target carries the character of code 13.
  The key 13 starts a label, yet the loop is left, by \<^verbatim>\<open>return\<close>.
\<close>

theorem label_key_enter_counterexample:
  "render ((exampleConfig Nvim False)\<lparr>labels := [''s'', [CHR 0x0D]]\<rparr>) freshState
     = (Inr [], snd (render ((exampleConfig Nvim False)\<lparr>labels := [''s'', [CHR 0x0D]]\<rparr>) freshState)) \<and>
   List.find (\<lambda>label. charCodeAt0 label = Some 13)
       (labels ((exampleConfig Nvim False)\<lparr>labels := [''s'', [CHR 0x0D]]\<rparr>)) = Some [CHR 0x0D] \<and>
   dispatch ((exampleConfig Nvim False)\<lparr>labels := [''s'', [CHR 0x0D]]\<rparr>) [] (Code 13)
       (snd (render ((exampleConfig Nvim False)\<lparr>labels := [''s'', [CHR 0x0D]]\<rparr>) freshState))
     = (Some Returned,
        snd (render ((exampleConfig Nvim False)\<lparr>labels := [''s'', [CHR 0x0D]]\<rparr>) freshState)) \<and>
   fst (loop ((exampleConfig Nvim False)\<lparr>labels := [''s'', [CHR 0x0D]]\<rparr>) [Code 13] freshState)
     = Some Returned"
proof -
  let ?cfg = "(exampleConfig Nvim False)\<lparr>labels := [''s'', [CHR 0x0D]]\<rparr>"
  have r: "render ?cfg freshState = (Inr [], snd (render ?cfg freshState))"
    by code_simp
  have f: "List.find (\<lambda>label. charCodeAt0 label = Some 13) (labels ?cfg) = Some [CHR 0x0D]"
    by (simp add: charCodeAt0_def)
  have d: "dispatch ?cfg [] (Code 13) (snd (render ?cfg freshState))
             = (Some Returned, snd (render ?cfg freshState))"
    by (simp add: dispatch_def ENTER_def)
  have l: "fst (loop ?cfg [Code 13] freshState) = Some Returned"
    unfolding loop_Cons_rendered [OF r] d by simp
  from r f d l show ?thesis by (intro conjI)
qed

text \<open>
  Claim C9 (clean-up on every exit).  Whenever the \<^verbatim>\<open>execute\<close> dispatcher has
  left its loop, by \<^verbatim>\<open>break\<close> (label key, auto-jump, Enter, Escape), by \<^verbatim>\<open>return\<close>
  (Enter without targets) or by a thrown value (a matcher, the \<^verbatim>\<open>assert\<close>, or
  any awaited call of the editor that is rejected), and the session started
  with nothing mounted, then the editor shows exactly the extmarks, text
  properties, popups and matches that it showed before the session: every
  label, every match highlight and every shading match of the session is gone,
  and the module variables list nothing.  The empty \<^verbatim>\<open>echo\<close> has been sent, and
  after it the redraw; apart from these two, the only request that can come
  after the empty \<^verbatim>\<open>echo\<close> is the \<^verbatim>\<open>cursor\<close> of a jump, which the program does
  not await.
\<close>

theorem cleanup_on_every_exit:
  assumes "fst (dispatcherExecute w cfg evs st0) = Some ex" and "idle st0" and "wellFormed st0"
  shows "extmarks (editor (snd (dispatcherExecute w cfg evs st0))) = extmarks (editor st0) \<and>
         props (editor (snd (dispatcherExecute w cfg evs st0))) = props (editor st0) \<and>
         popups (editor (snd (dispatcherExecute w cfg evs st0))) = popups (editor st0) \<and>
         matches (editor (snd (dispatcherExecute w cfg evs st0))) = matches (editor st0) \<and>
         set (fst (shade (lineNumbers cfg) (editor st0))) \<inter>
           matches (editor (snd (dispatcherExecute w cfg evs st0))) = {} \<and>
         idle (snd (dispatcherExecute w cfg evs st0)) \<and>
         (\<exists>before mid after.
            calls (editor (snd (dispatcherExecute w cfg evs st0))) =
              before @ [Execute (''echo '' @ [CHR 0x27, CHR 0x27])] @ mid @
              [Execute (case host cfg of Nvim \<Rightarrow> ''redraw'' | Vim \<Rightarrow> ''redraw!'')] @ after \<and>
            list_all isCursor (mid @ after))"
proof -
  from assms(1) obtain ids ed r2 st3 where
    s: "shade (lineNumbers cfg) (editor st0) = (ids, ed)" and
    l: "loopR w cfg evs (startRun (st0\<lparr>targetCache := [], editor := ed, input := []\<rparr>)) = (Some ex, r2)" and
    st3: "st3 = (case ex of Threw err \<Rightarrow> (stateOf r2)\<lparr>editor := console_error err (editor r2)\<rparr>
                     | Broke \<Rightarrow> stateOf r2 | Returned \<Rightarrow> stateOf r2)" and
    d: "snd (dispatcherExecute w cfg evs st0) =
       (cleanup cfg ids st3)\<lparr>editor := (editor (cleanup cfg ids st3))
          \<lparr>calls := calls (editor st3) @
              land (landing w) (pending r2)
                (drop (length (calls (editor st3))) (calls (editor (cleanup cfg ids st3))))\<rparr>\<rparr>"
    by (rule dispatcherExecute_Some)
  let ?r1 = "startRun (st0\<lparr>targetCache := [], editor := ed, input := []\<rparr>)"
  have c1: "covered cfg (editor st0) ids ?r1"
    using assms(2,3) s by (rule covered_initial)
  have p1: "list_all isCursor (pending ?r1)" by (simp add: startRun_def)
  from loopR_invariant [OF c1 p1, of w evs] l
  have c2: "covered cfg (editor st0) ids r2" and p2: "list_all isCursor (pending r2)" by simp_all
  have e2: "editor (stateOf r2) = editor r2" by (simp add: stateOf_def)
  have c3: "covered cfg (editor st0) ids st3"
    unfolding st3 using c2 by (cases ex) (simp_all add: e2 [symmetric] del: covered_stateOf, simp_all)
  note cl = cleanup_editor [OF c3]
  obtain cs where cc: "calls (editor (cleanup cfg ids st3)) =
      calls (editor st3) @ cs @
        [Execute (''echo '' @ [CHR 0x27, CHR 0x27]),
         Execute (case host cfg of Nvim \<Rightarrow> ''redraw'' | Vim \<Rightarrow> ''redraw!'')]"
    using cleanup_calls by blast
  from land_tail [OF p2, of "landing w" cs "Execute (''echo '' @ [CHR 0x27, CHR 0x27])"
      "Execute (case host cfg of Nvim \<Rightarrow> ''redraw'' | Vim \<Rightarrow> ''redraw!'')"]
  obtain before mid after where
    lt: "land (landing w) (pending r2)
           (cs @ [Execute (''echo '' @ [CHR 0x27, CHR 0x27]),
                  Execute (case host cfg of Nvim \<Rightarrow> ''redraw'' | Vim \<Rightarrow> ''redraw!'')])
         = before @ [Execute (''echo '' @ [CHR 0x27, CHR 0x27])] @ mid @
           [Execute (case host cfg of Nvim \<Rightarrow> ''redraw'' | Vim \<Rightarrow> ''redraw!'')] @ after"
    and lc: "list_all isCursor (mid @ after)"
    by blast
  have dr: "drop (length (calls (editor st3))) (calls (editor (cleanup cfg ids st3))) =
      cs @ [Execute (''echo '' @ [CHR 0x27, CHR 0x27]),
            Execute (case host cfg of Nvim \<Rightarrow> ''redraw'' | Vim \<Rightarrow> ''redraw!'')]"
    unfolding cc by simp
  have k0: "calls (editor (snd (dispatcherExecute w cfg evs st0))) =
      calls (editor st3) @
        land (landing w) (pending r2)
          (drop (length (calls (editor st3))) (calls (editor (cleanup cfg ids st3))))"
    unfolding d by simp
  have k: "calls (editor (snd (dispatcherExecute w cfg evs st0))) =
      (calls (editor st3) @ before) @ [Execute (''echo '' @ [CHR 0x27, CHR 0x27])] @ mid @
        [Execute (case host cfg of Nvim \<Rightarrow> ''redraw'' | Vim \<Rightarrow> ''redraw!'')] @ after"
    unfolding k0 dr lt by simp
  have m: "set ids \<inter> matches (editor st0) = {}"
    using c1 by (auto simp: covered_def)
  have x1: "extmarks (editor (snd (dispatcherExecute w cfg evs st0))) = extmarks (editor st0)"
    unfolding d using cl(1) by simp
  have x2: "props (editor (snd (dispatcherExecute w cfg evs st0))) = props (editor st0)"
    unfolding d using cl(2) by simp
  have x3: "popups (editor (snd (dispatcherExecute w cfg evs st0))) = popups (editor st0)"
    unfolding d using cl(3) by simp
  have x4: "matches (editor (snd (dispatcherExecute w cfg evs st0))) = matches (editor st0)"
    unfolding d using cl(4) by simp
  have x5: "set (fst (shade (lineNumbers cfg) (editor st0))) \<inter>
           matches (editor (snd (dispatcherExecute w cfg evs st0))) = {}"
    unfolding x4 s using m by simp
  have x6: "idle (snd (dispatcherExecute w cfg evs st0))"
    unfolding d using cl(5) by (simp add: idle_def)
  have x7: "\<exists>before mid after.
            calls (editor (snd (dispatcherExecute w cfg evs st0))) =
              before @ [Execute (''echo '' @ [CHR 0x27, CHR 0x27])] @ mid @
              [Execute (case host cfg of Nvim \<Rightarrow> ''redraw'' | Vim \<Rightarrow> ''redraw!'')] @ after \<and>
            list_all isCursor (mid @ after)"
    using k lc by blast
  from x1 x2 x3 x4 x5 x6 x7 show ?thesis by (intro conjI)
qed

text \<open>
  Two instances.  On Neovim, with the single word foo at line 3, column 1, the
  key f leaves one target and the session ends by auto-jump with nothing
  mounted; the pending \<^verbatim>\<open>cursor\<close> is sent after seven requests of the \<^verbatim>\<open>finally\<close>
  block, that is after the empty \<^verbatim>\<open>echo\<close>.  On Vim, after the keys f and o, the
  await with number 12 is rejected: it is the \<^verbatim>\<open>prop_add\<close> for the second
  target of the second pass, when the first target is mounted and the second
  is listed but not mounted.
\<close>

theorem cleanup_on_every_exit_witness:
  "fst (dispatcherExecute \<lparr>rejects = (\<lambda>n. False), landing = Some 7\<rparr>
          ((exampleConfig Nvim True)\<lparr>words := [mkWord ''foo'' 3 1]\<rparr>) [Code 102] freshState)
     = Some Broke \<and>
   fst (dispatcherExecute \<lparr>rejects = (\<lambda>n. n = 12), landing = None\<rparr>
          (exampleConfig Vim False) [Code 102, Code 111] freshState)
     = Some (Threw Rejected) \<and>
   idle freshState \<and> wellFormed freshState \<and>
   matches (editor (snd (dispatcherExecute \<lparr>rejects = (\<lambda>n. False), landing = Some 7\<rparr>
          ((exampleConfig Nvim True)\<lparr>words := [mkWord ''foo'' 3 1]\<rparr>) [Code 102] freshState)))
     = {} \<and>
   calls (editor (snd (dispatcherExecute \<lparr>rejects = (\<lambda>n. False), landing = Some 7\<rparr>
          ((exampleConfig Nvim True)\<lparr>words := [mkWord ''foo'' 3 1]\<rparr>) [Code 102] freshState)))
     = [MatchAddPos ''FuzzyMotionShade'' [1] 10, MatchAddPos ''FuzzyMotionShade'' [2] 10,
        MatchAddPos ''FuzzyMotionShade'' [3] 10, MatchAddPos ''FuzzyMotionShade'' [4] 10,
        MatchAddPos ''FuzzyMotionShade'' [5] 10, MatchAddPos ''FuzzyMotionShade'' [6] 10,
        Execute (''echo '' @ [CHR 0x27] @ ''fuzzy-motion: '' @ [CHR 0x27]), Execute ''redraw'',
        Execute ''normal! m`'',
        MatchDelete 1, MatchDelete 2, MatchDelete 3, MatchDelete 4, MatchDelete 5, MatchDelete 6,
        Execute (''echo '' @ [CHR 0x27, CHR 0x27]), Cursor 3 1, Execute ''redraw''] \<and>
   props (editor (snd (dispatcherExecute \<lparr>rejects = (\<lambda>n. n = 12), landing = None\<rparr>
          (exampleConfig Vim False) [Code 102, Code 111] freshState))) = {} \<and>
   popups (editor (snd (dispatcherExecute \<lparr>rejects = (\<lambda>n. n = 12), landing = None\<rparr>
          (exampleConfig Vim False) [Code 102, Code 111] freshState))) = {} \<and>
   matches (editor (snd (dispatcherExecute \<lparr>rejects = (\<lambda>n. n = 12), landing = None\<rparr>
          (exampleConfig Vim False) [Code 102, Code 111] freshState))) = {} \<and>
   idle (snd (dispatcherExecute \<lparr>rejects = (\<lambda>n. n = 12), landing = None\<rparr>
          (exampleConfig Vim False) [Code 102, Code 111] freshState))"
proof -
  let ?w1 = "\<lparr>rejects = (\<lambda>n. False), landing = Some 7\<rparr>"
  let ?c1 = "(exampleConfig Nvim True)\<lparr>words := [mkWord ''foo'' 3 1]\<rparr>"
  let ?r1 = "startRun (freshState\<lparr>targetCache := [],
                editor := snd (shade (lineNumbers ?c1) (editor freshState)), input := []\<rparr>)"
  let ?w2 = "\<lparr>rejects = (\<lambda>n. n = 12), landing = None\<rparr>"
  let ?c2 = "exampleConfig Vim False"
  let ?r2 = "startRun (freshState\<lparr>targetCache := [],
                editor := snd (shade (lineNumbers ?c2) (editor freshState)), input := []\<rparr>)"
  have "fst (loopR ?w1 ?c1 [Code 102] ?r1) = Some Broke"
    by code_simp
  then have j: "fst (dispatcherExecute ?w1 ?c1 [Code 102] freshState) = Some Broke"
    by (simp only: dispatcherExecute_fst)
  have "fst (loopR ?w2 ?c2 [Code 102, Code 111] ?r2) = Some (Threw Rejected)"
    by code_simp
  then have e: "fst (dispatcherExecute ?w2 ?c2 [Code 102, Code 111] freshState) = Some (Threw Rejected)"
    by (simp only: dispatcherExecute_fst)
  have i: "idle freshState" by (simp add: idle_def freshState_def)
  have w: "wellFormed freshState" by (simp add: wellFormed_def freshState_def)
  have z: "extmarks (editor freshState) = {}" "props (editor freshState) = {}"
    "popups (editor freshState) = {}" "matches (editor freshState) = {}"
    by (simp_all add: freshState_def)
  from cleanup_on_every_exit [OF j i w]
  have cj: "matches (editor (snd (dispatcherExecute ?w1 ?c1 [Code 102] freshState))) = {}"
    unfolding z by blast
  from cleanup_on_every_exit [OF e i w]
  have ce: "props (editor (snd (dispatcherExecute ?w2 ?c2 [Code 102, Code 111] freshState))) = {}"
    "popups (editor (snd (dispatcherExecute ?w2 ?c2 [Code 102, Code 111] freshState))) = {}"
    "matches (editor (snd (dispatcherExecute ?w2 ?c2 [Code 102, Code 111] freshState))) = {}"
    "idle (snd (dispatcherExecute ?w2 ?c2 [Code 102, Code 111] freshState))"
    unfolding z by blast+
  have l1: "calls (editor (snd (loopR ?w1 ?c1 [Code 102] ?r1))) =
       [MatchAddPos ''FuzzyMotionShade'' [1] 10, MatchAddPos ''FuzzyMotionShade'' [2] 10,
        MatchAddPos ''FuzzyMotionShade'' [3] 10, MatchAddPos ''FuzzyMotionShade'' [4] 10,
        MatchAddPos ''FuzzyMotionShade'' [5] 10, MatchAddPos ''FuzzyMotionShade'' [6] 10,
        Execute (''echo '' @ [CHR 0x27] @ ''fuzzy-motion: '' @ [CHR 0x27]), Execute ''redraw'',
        Execute ''normal! m`'']"
    by code_simp
  have l2: "pending (snd (loopR ?w1 ?c1 [Code 102] ?r1)) = [Cursor 3 1]"
    by code_simp
  have l3: "markIds (snd (loopR ?w1 ?c1 [Code 102] ?r1)) = []"
    "targetMatchIds (snd (loopR ?w1 ?c1 [Code 102] ?r1)) = []"
    by code_simp+
  have l4: "fst (shade (lineNumbers ?c1) (editor freshState)) = [1, 2, 3, 4, 5, 6]"
    by code_simp
  have cc: "calls (editor (snd (dispatcherExecute ?w1 ?c1 [Code 102] freshState)))
     = [MatchAddPos ''FuzzyMotionShade'' [1] 10, MatchAddPos ''FuzzyMotionShade'' [2] 10,
        MatchAddPos ''FuzzyMotionShade'' [3] 10, MatchAddPos ''FuzzyMotionShade'' [4] 10,
        MatchAddPos ''FuzzyMotionShade'' [5] 10, MatchAddPos ''FuzzyMotionShade'' [6] 10,
        Execute (''echo '' @ [CHR 0x27] @ ''fuzzy-motion: '' @ [CHR 0x27]), Execute ''redraw'',
        Execute ''normal! m`'',
        MatchDelete 1, MatchDelete 2, MatchDelete 3, MatchDelete 4, MatchDelete 5, MatchDelete 6,
        Execute (''echo '' @ [CHR 0x27, CHR 0x27]), Cursor 3 1, Execute ''redraw'']"
    unfolding dispatcherExecute_calls_Broke [OF j] Let_def l1 l2 l3 l4
    by (simp add: land_def exampleConfig_def)
  show ?thesis by (intro conjI j e i w cj cc ce)
qed

end
